theory Spec2Isabelle
  imports Main
begin

section \<open>Characters and strings\<close>

text \<open>
  The generator works on Python \<open>str\<close> values. They are modelled as \<open>string\<close>, a list of
  8-bit characters read as the code points 0..255 (Latin-1); for every function but
  \<open>filename_from_cppname\<close> code points above 255 are outside the model. The character
  classes below are the ones Python uses for these code
  points: \<open>str.isspace\<close> (which is also what \<open>\s\<close> and \<open>str.strip\<close> use),
  \<open>str.isupper\<close> of a single character, the word characters of \<open>\w\<close> (alphanumerics
  and the underscore), and \<open>str.lower\<close>.
\<close>

definition isspace :: "char \<Rightarrow> bool" where
  "isspace c =
     (let n = (of_char c :: nat)
      in (9 \<le> n \<and> n \<le> 13) \<or> (28 \<le> n \<and> n \<le> 32) \<or> n = 133 \<or> n = 160)"

definition isupper :: "char \<Rightarrow> bool" where
  "isupper c =
     (let n = (of_char c :: nat)
      in (65 \<le> n \<and> n \<le> 90) \<or> (192 \<le> n \<and> n \<le> 222 \<and> n \<noteq> 215))"

definition isalnum :: "char \<Rightarrow> bool" where
  "isalnum c =
     (let n = (of_char c :: nat)
      in (48 \<le> n \<and> n \<le> 57) \<or> (65 \<le> n \<and> n \<le> 90) \<or> (97 \<le> n \<and> n \<le> 122)
         \<or> n = 170 \<or> n = 178 \<or> n = 179 \<or> n = 181 \<or> n = 185 \<or> n = 186
         \<or> (188 \<le> n \<and> n \<le> 190) \<or> (192 \<le> n \<and> n \<le> 214)
         \<or> (216 \<le> n \<and> n \<le> 246) \<or> (248 \<le> n \<and> n \<le> 255))"

definition isword :: "char \<Rightarrow> bool" where
  "isword c = (isalnum c \<or> c = CHR ''_'')"

definition lower_char :: "char \<Rightarrow> char" where
  "lower_char c = (if isupper c then char_of (of_char c + 32 :: nat) else c)"

definition lower :: "string \<Rightarrow> string" where
  "lower s = map lower_char s"

definition strip :: "string \<Rightarrow> string" where
  "strip s = rev (dropWhile isspace (rev (dropWhile isspace s)))"

definition startswith :: "'a list \<Rightarrow> 'a list \<Rightarrow> bool" where
  "startswith s p = (take (length p) s = p)"

definition endswith :: "string \<Rightarrow> string \<Rightarrow> bool" where
  "endswith s p = (length p \<le> length s \<and> drop (length s - length p) s = p)"

text \<open>
  \<open>s.find(p)\<close> and \<open>s.rfind(p)\<close>: the index of the first, respectively last, occurrence
  of \<open>p\<close> in \<open>s\<close>, and \<open>-1\<close> when there is none.
\<close>

fun find_sub :: "string \<Rightarrow> string \<Rightarrow> nat option" where
  "find_sub [] p = (if p = [] then Some 0 else None)"
| "find_sub (c # s) p =
     (if startswith (c # s) p then Some 0 else map_option Suc (find_sub s p))"

fun rfind_sub :: "string \<Rightarrow> string \<Rightarrow> nat option" where
  "rfind_sub [] p = (if p = [] then Some 0 else None)"
| "rfind_sub (c # s) p =
     (case rfind_sub s p of
        Some i \<Rightarrow> Some (Suc i)
      | None \<Rightarrow> if startswith (c # s) p then Some 0 else None)"

definition py_find :: "string \<Rightarrow> string \<Rightarrow> int" where
  "py_find s p = (case find_sub s p of None \<Rightarrow> - 1 | Some i \<Rightarrow> int i)"

definition py_rfind :: "string \<Rightarrow> string \<Rightarrow> int" where
  "py_rfind s p = (case rfind_sub s p of None \<Rightarrow> - 1 | Some i \<Rightarrow> int i)"

text \<open>
  Python slices \<open>s[lo:hi]\<close>: an omitted bound is \<open>None\<close>, a negative bound counts from
  the end, and every bound is clamped to the string.
\<close>

definition slice_index :: "nat \<Rightarrow> int \<Rightarrow> nat" where
  "slice_index n i = (if i < 0 then nat (int n + i) else min (nat i) n)"

definition py_slice :: "'a list \<Rightarrow> int option \<Rightarrow> int option \<Rightarrow> 'a list" where
  "py_slice s lo hi =
     (let n = length s;
          l = (case lo of None \<Rightarrow> 0 | Some i \<Rightarrow> slice_index n i);
          h = (case hi of None \<Rightarrow> n | Some i \<Rightarrow> slice_index n i)
      in take (h - l) (drop l s))"

text \<open>\<open>s.split(sep)\<close> for a non-empty separator.\<close>

function py_split :: "string \<Rightarrow> string \<Rightarrow> string list" where
  "py_split s sep =
     (case find_sub s sep of
        None \<Rightarrow> [s]
      | Some i \<Rightarrow>
          if sep = [] then [s]
          else take i s # py_split (drop (i + length sep) s) sep)"
  by pat_completeness auto

lemma find_sub_bound: "find_sub s p = Some i \<Longrightarrow> i + length p \<le> length s"
proof (induction s arbitrary: i)
  case Nil
  then show ?case by (simp split: if_splits)
next
  case (Cons c s)
  show ?case
  proof (cases "startswith (c # s) p")
    case True
    then have "length (take (length p) (c # s)) = length p"
      by (simp only: startswith_def)
    then have "length p \<le> length (c # s)"
      by (simp only: length_take)
    with True Cons.prems show ?thesis by simp
  next
    case False
    with Cons.prems obtain j where "find_sub s p = Some j" "i = Suc j" by auto
    with Cons.IH show ?thesis by fastforce
  qed
qed

termination py_split
proof (relation "measure (\<lambda>(s, sep). length s)")
  show "wf (measure (\<lambda>(s, sep). length s))" by simp
next
  fix s sep :: string and i
  assume "find_sub s sep = Some i" "sep \<noteq> []"
  then have "i + length sep \<le> length s" "0 < length sep"
    by (auto dest: find_sub_bound)
  then have "length (drop (i + length sep) s) < length s"
    by (simp only: length_drop)
  then show "((drop (i + length sep) s, sep), (s, sep)) \<in> measure (\<lambda>(s, sep). length s)"
    by simp
qed

definition join :: "string \<Rightarrow> string list \<Rightarrow> string" where
  "join sep xs = (case xs of [] \<Rightarrow> [] | x # r \<Rightarrow> x @ concat (map (\<lambda>y. sep @ y) r))"

section \<open>Regular-expression substitution\<close>

text \<open>
  \<open>re.sub(pattern, repl, s)\<close> scans \<open>s\<close> from the left and replaces every
  non-overlapping match. A pattern is given by a matcher: applied to the rest of the
  string at the current position it returns the length of the match starting there, when
  there is one. Every pattern used through \<open>re_sub\<close> matches at least one character, so
  a match of length zero does not occur.
\<close>

type_synonym matcher = "string \<Rightarrow> nat option"

fun re_sub :: "('a list \<Rightarrow> nat option) \<Rightarrow> 'a list \<Rightarrow> 'a list \<Rightarrow> 'a list" where
  "re_sub m repl [] = []"
| "re_sub m repl (c # t) =
     (case m (c # t) of
        Some (Suc n) \<Rightarrow> repl @ re_sub m repl (drop n t)
      | _ \<Rightarrow> c # re_sub m repl t)"

text \<open>A literal pattern.\<close>

definition m_lit :: "'a list \<Rightarrow> 'a list \<Rightarrow> nat option" where
  "m_lit p s = (if startswith s p then Some (length p) else None)"

section \<open>Filename functions\<close>

text \<open>
  The claim about \<open>filename_from_cppname\<close> speaks of every string, and \<open>str.lower\<close> can
  turn one code point into two. For this function a string is therefore a list of code
  points, which are natural numbers. What the function asks of a code point, whether it
  is white space (for \<open>\s\<close>), whether it is a word character (for \<open>\W\<close>), and what it
  becomes in lower case, comes from the Unicode database of the interpreter. The model
  holds these properties for the code points below 256, where they are those of the 8-bit
  characters above, and for two more: U+0130, the capital letter I with a dot above, a
  word character whose lower case is the two code points U+0069 and U+0307; and U+0307,
  the combining dot above, which is not a word character and is its own lower case. On a
  string that holds any other code point the model of the function gives no answer.
\<close>

definition in_table :: "nat \<Rightarrow> bool" where
  "in_table c = (c < 256 \<or> c = 0x130 \<or> c = 0x307)"

definition cp_isspace :: "nat \<Rightarrow> bool" where
  "cp_isspace c = (c < 256 \<and> isspace (char_of c))"

definition cp_isword :: "nat \<Rightarrow> bool" where
  "cp_isword c = (if c < 256 then isword (char_of c) else c = 0x130)"

definition cp_lower :: "nat \<Rightarrow> nat list" where
  "cp_lower c =
     (if c < 256 then [of_char (lower_char (char_of c))]
      else if c = 0x130 then [0x69, 0x307]
      else [c])"

text \<open>\<open>s.lower()\<close> on code points, and the code points of a literal.\<close>

definition lower_cps :: "nat list \<Rightarrow> nat list" where
  "lower_cps s = concat (map cp_lower s)"

definition cps :: "string \<Rightarrow> nat list" where
  "cps s = map of_char s"

text \<open>
  The matchers of \<open>filename_from_cppname\<close>, in the order of the source: the word
  operator, any white space and a star; operator followed by an exclamation mark and an
  equals sign; operator followed by a pair of parentheses; operator followed by a
  less-than sign at the end of the string (the anchor also matches before a newline that
  ends the string); operator followed by two less-than signs; by two equals signs; by a
  greater-than sign; and any single code point that is not a word character.
\<close>

definition m_operator_star :: "nat list \<Rightarrow> nat option" where
  "m_operator_star s =
     (if startswith s (cps ''operator'') then
        (let r = drop 8 s
         in if startswith (dropWhile cp_isspace r) (cps ''*'')
            then Some (8 + length (takeWhile cp_isspace r) + 1) else None)
      else None)"

definition m_operator_less_end :: "nat list \<Rightarrow> nat option" where
  "m_operator_less_end s =
     (if s = cps ''operator<'' \<or> s = cps ''operator<'' @ [0x0A] then Some 9 else None)"

definition m_nonword :: "nat list \<Rightarrow> nat option" where
  "m_nonword s = (case s of [] \<Rightarrow> None | c # t \<Rightarrow> if cp_isword c then None else Some 1)"

definition filename_from_cppname :: "nat list \<Rightarrow> nat list option" where
  "filename_from_cppname name0 =
     (if list_all in_table name0 then
        Some
          (let name = re_sub m_operator_star (cps ''operator_star'') name0;
               name = re_sub (m_lit (cps ''operator!='')) (cps ''operator_not_eq'') name;
               name = re_sub (m_lit (cps ''operator()'')) (cps ''call_operator'') name;
               name = re_sub m_operator_less_end (cps ''operator_less'') name;
               name = re_sub (m_lit (cps ''operator<<'')) (cps ''insertion_operator'') name;
               name = re_sub (m_lit (cps ''operator=='')) (cps ''operator_equal_to'') name;
               name = re_sub (m_lit (cps ''operator>'')) (cps ''operator_greater'') name;
               name = re_sub m_nonword (cps ''_'') name
           in lower_cps name)
      else None)"

text \<open>
  A code point below 256 that is a word character and its own lower case: what the
  results of \<open>filename_from_cppname\<close> are made of.
\<close>

definition settled :: "nat \<Rightarrow> bool" where
  "settled d = (d < 256 \<and> cp_isword d \<and> cp_lower d = [d])"

text \<open>\<open>os.path.join(a, b)\<close> for a relative \<open>b\<close> and a non-empty \<open>a\<close> without a final slash.\<close>

definition path_join :: "string \<Rightarrow> string \<Rightarrow> string" where
  "path_join a b = a @ ''/'' @ b"

section \<open>Parameter normalisation and signature extraction\<close>

text \<open>
  The substitutions of \<open>doxy_normalize_yml_params\<close>. Two or more white-space characters
  become one space; the run of white space is matched greedily.
\<close>

definition m_ws2 :: matcher where
  "m_ws2 s = (let w = takeWhile isspace s in if 2 \<le> length w then Some (length w) else None)"

text \<open>
  The four patterns made of a look-behind and a look-ahead match the empty string between
  two neighbouring characters \<open>a\<close> and \<open>b\<close> with \<open>P a\<close> and \<open>Q b\<close>; the substitution
  puts one space at every such place of the string it was given.
\<close>

fun insert_between :: "(char \<Rightarrow> bool) \<Rightarrow> (char \<Rightarrow> bool) \<Rightarrow> string \<Rightarrow> string" where
  "insert_between P Q [] = []"
| "insert_between P Q [a] = [a]"
| "insert_between P Q (a # b # t) =
     (if P a \<and> Q b then a # CHR '' '' # insert_between P Q (b # t)
      else a # insert_between P Q (b # t))"

text \<open>White space, a comma, white space: both runs are greedy and may be empty.\<close>

definition m_comma :: matcher where
  "m_comma s =
     (case dropWhile isspace s of
        [] \<Rightarrow> None
      | c # t \<Rightarrow>
          if c = CHR '','' then Some (length (takeWhile isspace s) + 1 + length (takeWhile isspace t))
          else None)"

text \<open>
  The five characters ampersand, space, closing parenthesis, space, greater-than at the
  end of the string (or before a newline that ends the string).
\<close>

definition m_amp_tail :: matcher where
  "m_amp_tail s = (if s = ''& ) >'' \<or> s = ''& ) >'' @ [CHR 0x0A] then Some 5 else None)"

definition doxy_normalize_yml_params :: "string \<Rightarrow> string" where
  "doxy_normalize_yml_params params0 =
     (let params = strip params0;
          params = re_sub m_ws2 '' '' params;
          params = insert_between (\<lambda>c. c = CHR ''<'') (\<lambda>c. \<not> isspace c) params;
          params = insert_between (\<lambda>c. \<not> isspace c) (\<lambda>c. c = CHR ''>'') params;
          params = insert_between (\<lambda>c. \<not> isspace c \<and> c \<noteq> CHR ''&'') (\<lambda>c. c = CHR ''&'') params;
          params = insert_between (\<lambda>c. c = CHR ''&'') (\<lambda>c. \<not> isspace c \<and> c \<noteq> CHR ''&'') params;
          params = re_sub m_comma '','' params
      in if endswith params ''& ) >'' then re_sub m_amp_tail ''&)>'' params else params)"

text \<open>
  \<open>extract_yml_func_signature\<close> returns the name and, when the entry has an opening
  parenthesis, the normalised parameters; \<open>None\<close> stands for Python's \<open>None\<close>.
\<close>

definition extract_yml_func_signature :: "string \<Rightarrow> string \<times> string option" where
  "extract_yml_func_signature yml_entry0 =
     (let yml_entry = strip yml_entry0;
          lpos = py_find yml_entry ''(''
      in if lpos = - 1 then (yml_entry, None)
         else
           (let rpos = py_rfind yml_entry '')'';
                params = ''('' @ doxy_normalize_yml_params (py_slice yml_entry (Some (lpos + 1)) (Some rpos))
                           @ py_slice yml_entry (Some rpos) None
            in if startswith yml_entry ''template''
               then (py_slice yml_entry
                       (Some (py_rfind (py_slice yml_entry (Some 0) (Some lpos)) '' '' + 1))
                       (Some lpos),
                     Some params)
               else (py_slice yml_entry None (Some lpos), Some params)))"

section \<open>Tokens and gaps\<close>

text \<open>
  A device for reasoning about \<open>doxy_normalize_yml_params\<close>: a string without white
  space at its ends is a sequence of tokens, each a character that is not white space
  followed by a gap, the run of white space up to the next such character. Every
  substitution of the normalisation keeps the characters and rewrites the gaps, looking
  only at the two characters around a gap.
\<close>

type_synonym tok = "char \<times> string"

definition render :: "tok list \<Rightarrow> string" where
  "render ts = concat (map (\<lambda>(c, w). c # w) ts)"

fun gm :: "(char \<Rightarrow> string \<Rightarrow> char \<Rightarrow> string) \<Rightarrow> tok list \<Rightarrow> tok list" where
  "gm g [] = []"
| "gm g [t] = [t]"
| "gm g ((c, w) # (d, v) # ts) = (c, g c w d) # gm g ((d, v) # ts)"

definition allspace :: "string \<Rightarrow> bool" where
  "allspace w = list_all isspace w"

definition wft :: "tok list \<Rightarrow> bool" where
  "wft ts = list_all (\<lambda>(c, w). \<not> isspace c \<and> allspace w) ts"

definition closed :: "tok list \<Rightarrow> bool" where
  "closed ts = (ts = [] \<or> snd (last ts) = [])"

function tokens :: "string \<Rightarrow> tok list" where
  "tokens [] = []"
| "tokens (c # s) = (c, takeWhile isspace s) # tokens (dropWhile isspace s)"
  by pat_completeness auto

termination tokens
proof (relation "measure length")
  show "wf (measure length)" by simp
next
  fix c :: char and s :: string
  have "length (dropWhile isspace s) \<le> length s" by (rule length_dropWhile_le)
  then show "(dropWhile isspace s, c # s) \<in> measure length" by simp
qed

text \<open>The gap functions of the six substitutions, and their composition.\<close>

definition g_ws2 :: "char \<Rightarrow> string \<Rightarrow> char \<Rightarrow> string" where
  "g_ws2 c w d = (if 2 \<le> length w then '' '' else w)"

definition g_ins :: "(char \<Rightarrow> bool) \<Rightarrow> (char \<Rightarrow> bool) \<Rightarrow> char \<Rightarrow> string \<Rightarrow> char \<Rightarrow> string" where
  "g_ins P Q c w d = (if w = [] \<and> P c \<and> Q d then '' '' else w)"

definition g_comma :: "char \<Rightarrow> string \<Rightarrow> char \<Rightarrow> string" where
  "g_comma c w d = (if c = CHR '','' \<or> d = CHR '','' then [] else w)"

definition g_all :: "char \<Rightarrow> string \<Rightarrow> char \<Rightarrow> string" where
  "g_all c w d =
     (let w = g_ws2 c w d;
          w = g_ins (\<lambda>c. c = CHR ''<'') (\<lambda>c. \<not> isspace c) c w d;
          w = g_ins (\<lambda>c. \<not> isspace c) (\<lambda>c. c = CHR ''>'') c w d;
          w = g_ins (\<lambda>c. \<not> isspace c \<and> c \<noteq> CHR ''&'') (\<lambda>c. c = CHR ''&'') c w d;
          w = g_ins (\<lambda>c. c = CHR ''&'') (\<lambda>c. \<not> isspace c \<and> c \<noteq> CHR ''&'') c w d
      in g_comma c w d)"

text \<open>The normalisation before its last step, and the last step.\<close>

definition norm7 :: "string \<Rightarrow> string" where
  "norm7 params0 =
     (let params = strip params0;
          params = re_sub m_ws2 '' '' params;
          params = insert_between (\<lambda>c. c = CHR ''<'') (\<lambda>c. \<not> isspace c) params;
          params = insert_between (\<lambda>c. \<not> isspace c) (\<lambda>c. c = CHR ''>'') params;
          params = insert_between (\<lambda>c. \<not> isspace c \<and> c \<noteq> CHR ''&'') (\<lambda>c. c = CHR ''&'') params;
          params = insert_between (\<lambda>c. c = CHR ''&'') (\<lambda>c. \<not> isspace c \<and> c \<noteq> CHR ''&'') params
      in re_sub m_comma '','' params)"

definition tighten :: "string \<Rightarrow> string" where
  "tighten params = (if endswith params ''& ) >'' then re_sub m_amp_tail ''&)>'' params else params)"

text \<open>A string that is empty or starts with a character that is not white space.\<close>

definition headok :: "string \<Rightarrow> bool" where
  "headok r = (case r of [] \<Rightarrow> True | x # _ \<Rightarrow> \<not> isspace x)"

section \<open>Exceptions, the file system and the global state\<close>

text \<open>
  A Python call either returns a value or raises; in both cases the global state it
  changed so far stays changed. A function of the generator that touches the globals or
  the disk therefore maps a state to a result and a state.
\<close>

datatype py_error =
    IsADirectoryError | FileNotFoundError | KeyError | NameError | StopIteration
  | ValueError | IndexError | AttributeError | TypeError | AssertionError | NotADirectoryError

datatype 'a result = Return 'a | Raise py_error

text \<open>
  The disk is an association list from paths to entries; the first entry for a path
  counts. A regular file holds its text as it is stored: a write in text mode stores the
  string it is given (on a POSIX system, where the line separator is the newline
  character and nothing is translated), and a read in text mode returns the stored text
  with universal newlines, that is, with every carriage return followed by a newline and
  every other carriage return turned into a newline. The encoding of the text is not
  modelled. The directories that hold the files are taken to exist, as \<open>main\<close> creates
  \<open>source/_generated\<close> before anything is written.
\<close>

datatype entry = File string | Dir

type_synonym disk = "(string \<times> entry) list"

definition disk_write :: "string \<Rightarrow> entry \<Rightarrow> disk \<Rightarrow> disk" where
  "disk_write k v d = (k, v) # filter (\<lambda>(k', _). k' \<noteq> k) d"

definition disk_remove :: "string \<Rightarrow> disk \<Rightarrow> disk" where
  "disk_remove k d = filter (\<lambda>(k', _). k' \<noteq> k) d"

text \<open>What \<open>f.read()\<close> returns for a file opened with \<open>open(fname, "r")\<close> that stores \<open>s\<close>.\<close>

fun universal_newlines :: "string \<Rightarrow> string" where
  "universal_newlines [] = []"
| "universal_newlines [c] = (if c = CHR 0x0D then [CHR 0x0A] else [c])"
| "universal_newlines (c # d # t) =
     (if c = CHR 0x0D then
        (if d = CHR 0x0A then CHR 0x0A # universal_newlines t
         else CHR 0x0A # universal_newlines (d # t))
      else c # universal_newlines (d # t))"

text \<open>
  \<open>os.listdir(d)\<close>: the names \<open>n\<close>, without a slash, for which \<open>d/n\<close> is on the disk.
\<close>

definition listdir :: "string \<Rightarrow> (string \<times> 'a) list \<Rightarrow> string list" where
  "listdir d dk =
     remdups (concat (map (\<lambda>(k, _).
       (let n = drop (length d + 1) k
        in if startswith k (d @ ''/'') \<and> n \<noteq> [] \<and> CHR ''/'' \<notin> set n then [n] else [])) dk))"

text \<open>
  The globals of the module: the three counters, the set of keys of
  \<open>__RST_FILES_WRITTEN\<close> (every value of that dictionary is \<open>True\<close>), and with them the
  disk and the lines written to standard output and standard error.
\<close>

record gen_state =
  disk_of :: disk
  REWRITES_ATTEMPTED :: nat
  REWRITES_ACTUAL :: nat
  WARNINGS :: nat
  RST_FILES_WRITTEN :: "string set"
  stdout :: "string list"
  stderr :: "string list"

definition info :: "string \<Rightarrow> gen_state \<Rightarrow> gen_state" where
  "info msg s = s\<lparr>stdout := stdout s @ [msg]\<rparr>"

definition info2 :: "string \<Rightarrow> string \<Rightarrow> gen_state \<Rightarrow> gen_state" where
  "info2 msg fname s = s\<lparr>stdout := stdout s @ [fname @ '': '' @ msg]\<rparr>"

definition warn :: "string \<Rightarrow> string \<Rightarrow> gen_state \<Rightarrow> gen_state" where
  "warn fname msg s =
     s\<lparr>WARNINGS := WARNINGS s + 1,
       stderr := stderr s @ [''WARNING in docs/'' @ fname @ '': '' @ msg]\<rparr>"

text \<open>
  \<open>__write_file_if_changed\<close>. Opening a directory for writing raises before the counter
  of rewrites is touched.
\<close>

definition write_file_if_changed :: "string \<Rightarrow> string \<Rightarrow> gen_state \<Rightarrow> unit result \<times> gen_state" where
  "write_file_if_changed fname contents s0 =
     (let s = s0\<lparr>REWRITES_ATTEMPTED := REWRITES_ATTEMPTED s0 + 1,
                 RST_FILES_WRITTEN := insert fname (RST_FILES_WRITTEN s0)\<rparr>;
          rewrite = (\<lambda>s. let s = info (''Rewriting docs/'' @ fname @ '' ...'') s;
                           s = s\<lparr>REWRITES_ACTUAL := REWRITES_ACTUAL s + 1\<rparr>
                       in (Return (), s\<lparr>disk_of := disk_write fname (File contents) (disk_of s)\<rparr>))
      in case map_of (disk_of s) fname of
           Some (File stored) \<Rightarrow>
             (let file_contents = universal_newlines stored
              in if file_contents = contents then (Return (), s) else rewrite s)
         | Some Dir \<Rightarrow> (Raise IsADirectoryError, s)
         | None \<Rightarrow> rewrite s)"

text \<open>
  \<open>__clean_up\<close>: the listing is taken once, then every listed path that is not a key of
  \<open>__RST_FILES_WRITTEN\<close> is reported and removed. \<open>os.remove\<close> raises on a directory and
  on a path that is not there.
\<close>

definition os_remove :: "string \<Rightarrow> gen_state \<Rightarrow> unit result \<times> gen_state" where
  "os_remove fname s =
     (case map_of (disk_of s) fname of
        None \<Rightarrow> (Raise FileNotFoundError, s)
      | Some Dir \<Rightarrow> (Raise IsADirectoryError, s)
      | Some (File _) \<Rightarrow> (Return (), s\<lparr>disk_of := disk_remove fname (disk_of s)\<rparr>))"

fun clean_up_loop :: "string list \<Rightarrow> gen_state \<Rightarrow> unit result \<times> gen_state" where
  "clean_up_loop [] s = (Return (), s)"
| "clean_up_loop (n # ns) s =
     (let fname = path_join ''source/_generated'' n
      in if fname \<notin> RST_FILES_WRITTEN s then
           (case os_remove fname (info2 fname ''deleting!!!'' s) of
              (Return _, s') \<Rightarrow> clean_up_loop ns s'
            | (Raise e, s') \<Rightarrow> (Raise e, s'))
         else clean_up_loop ns s)"

definition clean_up :: "gen_state \<Rightarrow> unit result \<times> gen_state" where
  "clean_up s = clean_up_loop (listdir ''source/_generated'' (disk_of s)) s"

text \<open>
  A run of \<open>main\<close>, as far as the disk and \<open>__RST_FILES_WRITTEN\<close> go: the page functions
  call \<open>__write_file_if_changed\<close> some number of times, with the file names and contents
  they computed, and then \<open>__clean_up\<close> runs. The calls are a parameter; an exception
  ends the run.
\<close>

fun write_all :: "(string \<times> string) list \<Rightarrow> gen_state \<Rightarrow> unit result \<times> gen_state" where
  "write_all [] s = (Return (), s)"
| "write_all ((fname, contents) # ws) s =
     (case write_file_if_changed fname contents s of
        (Return _, s') \<Rightarrow> write_all ws s'
      | (Raise e, s') \<Rightarrow> (Raise e, s'))"

definition run :: "(string \<times> string) list \<Rightarrow> gen_state \<Rightarrow> unit result \<times> gen_state" where
  "run ws s =
     (case write_all ws s of
        (Return _, s') \<Rightarrow> clean_up s'
      | (Raise e, s') \<Rightarrow> (Raise e, s'))"

text \<open>The state of a fresh process on a given disk.\<close>

definition initial_state :: "disk \<Rightarrow> gen_state" where
  "initial_state d =
     \<lparr>disk_of = d, REWRITES_ATTEMPTED = 0, REWRITES_ACTUAL = 0, WARNINGS = 0,
      RST_FILES_WRITTEN = {}, stdout = [], stderr = []\<rparr>"

text \<open>A disk none of whose entries is a directory.\<close>

definition no_dirs :: "disk \<Rightarrow> bool" where
  "no_dirs d = list_all (\<lambda>(k, e). e \<noteq> Dir) d"

section \<open>Descriptor trees\<close>

text \<open>
  A parsed descriptor is a tree of tagged elements with attributes and ordered children;
  a leaf is a string. The operations are the ones of the parsing library the generator
  uses: \<open>x.name\<close> (which is \<open>None\<close> for a string), \<open>x.text\<close> (the strings below
  \<open>x\<close>, concatenated), \<open>x.find_all(n)\<close> (the elements named \<open>n\<close> below \<open>x\<close>, in document
  order) and \<open>x.find(n)\<close> (the first of them, or \<open>None\<close>); \<open>x.n\<close> is \<open>x.find(n)\<close>.
\<close>

datatype xml = Text string | Tag string "(string \<times> string) list" "xml list"

fun tag_name :: "xml \<Rightarrow> string option" where
  "tag_name (Text s) = None"
| "tag_name (Tag n a cs) = Some n"

fun attrs :: "xml \<Rightarrow> (string \<times> string) list" where
  "attrs (Text s) = []"
| "attrs (Tag n a cs) = a"

fun children :: "xml \<Rightarrow> xml list" where
  "children (Text s) = []"
| "children (Tag n a cs) = cs"

fun text_of :: "xml \<Rightarrow> string" where
  "text_of (Text s) = s"
| "text_of (Tag n a cs) = concat (map text_of cs)"

fun find_all :: "string \<Rightarrow> xml \<Rightarrow> xml list" where
  "find_all nm (Text s) = []"
| "find_all nm (Tag n a cs) =
     concat (map (\<lambda>c. (if tag_name c = Some nm then [c] else []) @ find_all nm c) cs)"

definition find_tag :: "string \<Rightarrow> xml \<Rightarrow> xml option" where
  "find_tag nm x = (case find_all nm x of [] \<Rightarrow> None | y # _ \<Rightarrow> Some y)"

text \<open>\<open>next(x for x in xs if x.name == nm)\<close>, with \<open>None\<close> for \<open>StopIteration\<close>.\<close>

definition first_named :: "string \<Rightarrow> xml list \<Rightarrow> xml option" where
  "first_named nm xs = (case filter (\<lambda>x. tag_name x = Some nm) xs of [] \<Rightarrow> None | y # _ \<Rightarrow> Some y)"

text \<open>The number of elements of a tree; it bounds the recursion of the renderer.\<close>

fun weight :: "xml \<Rightarrow> nat" where
  "weight (Text s) = 0"
| "weight (Tag n a cs) = Suc (sum_list (map weight cs))"

definition max_weight :: "xml list \<Rightarrow> nat" where
  "max_weight xs = foldr (\<lambda>x m. max (weight x) m) xs 0"

section \<open>The renderer\<close>

text \<open>
  The context of \<open>convert_to_rst\<close> is a Python list that the function changes in place.
  Its parameter has a default value, one list shared by all calls that leave the
  argument out; a caller may also pass a list of its own. The store holds both lists, and
  a call is given the name of the one it works on. Which list a recursive call gets is
  as in the source: the same one where the source passes \<open>context\<close> on, the default
  one where it leaves the argument out.
\<close>

record ctx_store =
  dflt :: "string list"
  own :: "string list"

datatype ctx_ref = Default | Own

definition get_ctx :: "ctx_ref \<Rightarrow> ctx_store \<Rightarrow> string list" where
  "get_ctx r st = (case r of Default \<Rightarrow> dflt st | Own \<Rightarrow> own st)"

definition set_ctx :: "ctx_ref \<Rightarrow> string list \<Rightarrow> ctx_store \<Rightarrow> ctx_store" where
  "set_ctx r c st = (case r of Default \<Rightarrow> st\<lparr>dflt := c\<rparr> | Own \<Rightarrow> st\<lparr>own := c\<rparr>)"

definition push_ctx :: "ctx_ref \<Rightarrow> string \<Rightarrow> ctx_store \<Rightarrow> ctx_store" where
  "push_ctx r x st = set_ctx r (get_ctx r st @ [x]) st"

definition indent :: "string list \<Rightarrow> string" where
  "indent context =
     (let n = count_list context ''memberdef'';
          n = n + count_list context ''compounddef'';
          n = n + count_list context ''parameterdescription'';
          n = n + count_list context ''programlisting''
      in replicate (3 * n) CHR '' '')"

text \<open>
  The table \<open>PREFIXES\<close> is used by the renderer but bound nowhere in the module. It is a
  parameter: \<open>None\<close> is the unbound name, whose use raises \<open>NameError\<close>.
\<close>

type_synonym prefixes = "(string \<times> string) list option"

definition lookup_prefix :: "prefixes \<Rightarrow> (string \<times> string) list \<Rightarrow> string result" where
  "lookup_prefix P a =
     (case P of
        None \<Rightarrow> Raise NameError
      | Some tbl \<Rightarrow>
          (case map_of a ''kind'' of
             None \<Rightarrow> Raise KeyError
           | Some k \<Rightarrow> (case map_of tbl k of None \<Rightarrow> Raise KeyError | Some p \<Rightarrow> Return p)))"

text \<open>A string child: stripped, with a space before it unless it is empty, a full stop,
  or starts with an upper-case letter.\<close>

definition text_piece :: "string \<Rightarrow> string" where
  "text_piece s =
     (let x = strip s
      in (if x \<noteq> ''.'' \<and> x \<noteq> [] \<and> \<not> isupper (hd x) then '' '' else []) @ x)"

text \<open>The branch for a \<open>definition\<close> element, on its text.\<close>

fun upto_libsemigroups :: "string list \<Rightarrow> string list" where
  "upto_libsemigroups [] = []"
| "upto_libsemigroups (z # zs) =
     (if endswith z ''libsemigroups'' then [z] else z # upto_libsemigroups zs)"

definition render_definition :: "string \<Rightarrow> string result" where
  "render_definition t =
     (if startswith t ''using'' then
        (case py_split t ''='' of
           [lhs0, rhs0] \<Rightarrow>
             (let lhs = strip (py_slice lhs0 (Some (py_rfind lhs0 ''::'' + 2)) None)
              in if py_find rhs0 ''detail::'' = - 1 then
                   (let rhs = strip (re_sub (m_lit ''typename'') [] rhs0);
                        rhs = strip (re_sub (m_lit ''typedef'') [] rhs)
                    in Return (lhs @ '' = '' @ rhs))
                 else Return (strip (re_sub (m_lit ''using'') [] lhs)))
         | _ \<Rightarrow> Raise ValueError)
      else
        (let y = py_split t ''::''
         in if last y = ''operator='' then
              Return (py_slice (hd y) None (Some (py_find (hd y) ''&'' + 1)) @ last y)
            else if length y < 2 then Raise IndexError
            else if \<not> startswith (y ! (length y - 2)) (last y) then
              (let return_type = join ''::'' (upto_libsemigroups y)
               in Return (py_slice return_type None (Some (py_rfind return_type '' '' + 1)) @ last y))
            else Return (last y)))"

text \<open>The branch for a \<open>templateparamlist\<close> element.\<close>

fun template_params :: "xml list \<Rightarrow> string list result" where
  "template_params [] = Return []"
| "template_params (y # ys) =
     (case find_tag ''type'' y of
        None \<Rightarrow> Raise AttributeError
      | Some ty \<Rightarrow>
          (let z = text_of ty;
               z = (case find_tag ''declname'' y of None \<Rightarrow> z | Some d \<Rightarrow> z @ '' '' @ text_of d)
           in case template_params ys of
                Return zs \<Rightarrow> Return (z # zs)
              | Raise e \<Rightarrow> Raise e))"

definition render_templateparamlist :: "xml \<Rightarrow> string result" where
  "render_templateparamlist x =
     (case template_params (find_all ''param'' x) of
        Return params \<Rightarrow> Return (''template <'' @ join '', '' params @ ''>'')
      | Raise e \<Rightarrow> Raise e)"

text \<open>
  Helpers for the results of recursive calls: the text of a returned call is appended to
  what was rendered so far; a raised exception is passed on.
\<close>

definition append_to :: "string \<Rightarrow> string result \<times> ctx_store \<Rightarrow> string result \<times> ctx_store" where
  "append_to pre rs =
     (case rs of (Return r, st) \<Rightarrow> (Return (pre @ r), st) | (Raise e, st) \<Rightarrow> (Raise e, st))"

definition lift_pure :: "string \<Rightarrow> string result \<Rightarrow> ctx_store \<Rightarrow> string result \<times> ctx_store" where
  "lift_pure pre r st = (case r of Return s \<Rightarrow> (Return (pre @ s), st) | Raise e \<Rightarrow> (Raise e, st))"

text \<open>After a \<open>para\<close> child: a blank line and the indentation when the innermost context
  entry is a description.\<close>

definition para_post :: "ctx_ref \<Rightarrow> string result \<times> ctx_store \<Rightarrow> string result \<times> ctx_store" where
  "para_post r rs =
     (case rs of
        (Return res, st) \<Rightarrow>
          (let context = get_ctx r st
           in if context \<noteq> [] \<and> (last context = ''detaileddescription'' \<or> last context = ''briefdescription'')
              then (Return (res @ [CHR 0x0A, CHR 0x0A] @ indent context), st)
              else (Return res, st))
      | (Raise e, st) \<Rightarrow> (Raise e, st))"

text \<open>The end of \<open>convert_to_rst\<close>: the two pops, and the text after a list.\<close>

definition finish :: "ctx_ref \<Rightarrow> string result \<times> ctx_store \<Rightarrow> string result \<times> ctx_store" where
  "finish r rs =
     (case rs of
        (Return res, st) \<Rightarrow>
          (let st = (if get_ctx r st \<noteq> [] \<and> last (get_ctx r st) = ''enum''
                     then set_ctx r (butlast (get_ctx r st)) st else st)
           in if get_ctx r st = [] then (Raise IndexError, st)
              else
                (let popped = last (get_ctx r st);
                     st = set_ctx r (butlast (get_ctx r st)) st
                 in if popped = ''itemizedlist''
                    then (Return (res @ [CHR 0x0A, CHR 0x0A] @ indent (get_ctx r st)), st)
                    else (Return res, st)))
      | (Raise e, st) \<Rightarrow> (Raise e, st))"

text \<open>
  The children the loop of \<open>convert_to_rst\<close> runs over, and whether \<open>xml\<close> was rebound
  to a list: a \<open>compounddef\<close> puts its first \<open>templateparamlist\<close> child in front and
  drops the others.
\<close>

definition compound_items :: "xml list \<Rightarrow> bool \<times> xml list" where
  "compound_items cs =
     (case first_named ''templateparamlist'' cs of
        None \<Rightarrow> (False, cs)
      | Some t \<Rightarrow> (True, t # filter (\<lambda>x. tag_name x \<noteq> Some ''templateparamlist'') cs))"

definition enum_items :: "xml list \<Rightarrow> xml list option" where
  "enum_items cs =
     (case first_named ''name'' cs of
        None \<Rightarrow> None
      | Some n \<Rightarrow>
          (let bd = (case first_named ''briefdescription'' cs of None \<Rightarrow> Text [] | Some b \<Rightarrow> b)
           in Some (n # bd # filter (\<lambda>x. tag_name x \<noteq> Some ''briefdescription'' \<and> tag_name x \<noteq> Some ''name'') cs)))"

text \<open>
  The kinds of \<open>parameterlist\<close> the loop handles. Every item of such a list is rendered
  by its own loop over \<open>x.find_all("parameteritem")\<close>.
\<close>

datatype plist_kind = TemplateParam | Param | Exception


text \<open>
  Every recursive call is on fewer elements: the loop runs over children of the element
  (the reordered lists hold children, and at most one empty string more), and the other
  calls are on elements found below a child.
\<close>

definition rst_measure1 ::
  "(prefixes \<times> xml \<times> ctx_ref \<times> ctx_store + prefixes \<times> xml list \<times> ctx_ref \<times> string \<times> ctx_store)
   + (prefixes \<times> xml \<times> ctx_ref \<times> string \<times> ctx_store
      + prefixes \<times> plist_kind \<times> xml \<times> xml list \<times> ctx_ref \<times> string \<times> ctx_store) \<Rightarrow> nat" where
  "rst_measure1 z =
     (case z of
        Inl (Inl (P, x, r, st)) \<Rightarrow> 4 * weight x
      | Inl (Inr (P, xs, r, res, st)) \<Rightarrow> 4 * sum_list (map weight xs) + 3
      | Inr (Inl (P, x, r, res, st)) \<Rightarrow> 4 * weight x + 2
      | Inr (Inr (P, k, x, ys, r, res, st)) \<Rightarrow> 4 * max (weight x) (max_weight ys) + 1)"

definition rst_measure2 ::
  "(prefixes \<times> xml \<times> ctx_ref \<times> ctx_store + prefixes \<times> xml list \<times> ctx_ref \<times> string \<times> ctx_store)
   + (prefixes \<times> xml \<times> ctx_ref \<times> string \<times> ctx_store
      + prefixes \<times> plist_kind \<times> xml \<times> xml list \<times> ctx_ref \<times> string \<times> ctx_store) \<Rightarrow> nat" where
  "rst_measure2 z =
     (case z of
        Inl (Inl (P, x, r, st)) \<Rightarrow> 0
      | Inl (Inr (P, xs, r, res, st)) \<Rightarrow> length xs
      | Inr (Inl (P, x, r, res, st)) \<Rightarrow> 0
      | Inr (Inr (P, k, x, ys, r, res, st)) \<Rightarrow> length ys)"

lemma weight_filter_le: "sum_list (map weight (filter Q xs)) \<le> sum_list (map weight xs)"
  by (induction xs) auto

lemma weight_partition:
  "sum_list (map weight xs)
   = sum_list (map weight (filter Q xs)) + sum_list (map weight (filter (\<lambda>x. \<not> Q x) xs))"
  by (induction xs) auto

lemma weight_first_named:
  "first_named nm cs = Some t \<Longrightarrow>
     weight t \<le> sum_list (map weight (filter (\<lambda>x. tag_name x = Some nm) cs))"
  by (auto simp: first_named_def split: list.splits)

lemma weight_compound_items: "sum_list (map weight (snd (compound_items cs))) \<le> sum_list (map weight cs)"
proof (cases "first_named ''templateparamlist'' cs")
  case None
  then show ?thesis by (simp add: compound_items_def)
next
  case (Some t)
  from weight_first_named[OF Some] weight_partition[of cs "\<lambda>x. tag_name x = Some ''templateparamlist''"]
  show ?thesis using Some by (simp add: compound_items_def)
qed

lemma weight_enum_items:
  assumes "enum_items cs = Some items"
  shows "sum_list (map weight items) \<le> sum_list (map weight cs)"
proof -
  let ?N = "\<lambda>x. tag_name x = Some ''name''"
  let ?B = "\<lambda>x. tag_name x = Some ''briefdescription''"
  from assms obtain n where n: "first_named ''name'' cs = Some n"
    by (auto simp: enum_items_def split: option.splits)
  define bd where "bd = (case first_named ''briefdescription'' cs of None \<Rightarrow> Text [] | Some b \<Rightarrow> b)"
  have items: "items = n # bd # filter (\<lambda>x. \<not> ?B x \<and> \<not> ?N x) cs"
    using assms n by (simp add: enum_items_def bd_def)
  have 1: "weight n \<le> sum_list (map weight (filter ?N cs))"
    by (rule weight_first_named[OF n])
  have 2: "weight bd \<le> sum_list (map weight (filter ?B (filter (\<lambda>x. \<not> ?N x) cs)))"
  proof (cases "first_named ''briefdescription'' cs")
    case None
    then show ?thesis by (simp add: bd_def)
  next
    case (Some b)
    have "filter ?B (filter (\<lambda>x. \<not> ?N x) cs) = filter ?B cs"
      by (induction cs) auto
    with weight_first_named[OF Some] Some show ?thesis by (simp add: bd_def)
  qed
  have 3: "filter (\<lambda>x. \<not> ?B x) (filter (\<lambda>x. \<not> ?N x) cs) = filter (\<lambda>x. \<not> ?B x \<and> \<not> ?N x) cs"
    by (induction cs) auto
  from weight_partition[of cs ?N] weight_partition[of "filter (\<lambda>x. \<not> ?N x) cs" ?B] 1 2
  show ?thesis unfolding items 3 by simp
qed

lemma weight_find_all: "y \<in> set (find_all nm x) \<Longrightarrow> weight y < weight x"
proof (induction x arbitrary: y)
  case (Text s)
  then show ?case by simp
next
  case (Tag n a cs)
  from Tag.prems obtain c where c: "c \<in> set cs"
    and y: "(tag_name c = Some nm \<and> y = c) \<or> y \<in> set (find_all nm c)"
    by (auto split: if_splits)
  from c have le: "weight c \<le> sum_list (map weight cs)"
    by (simp add: member_le_sum_list)
  from y Tag.IH[OF c] have "weight y \<le> weight c" by fastforce
  with le show ?case by simp
qed

lemma weight_find_tag: "find_tag nm x = Some y \<Longrightarrow> weight y < weight x"
  using weight_find_all[of y nm x] by (auto simp: find_tag_def split: list.splits)

lemma max_weight_Cons: "max_weight (y # ys) = max (weight y) (max_weight ys)"
  by (simp add: max_weight_def)

lemma max_weight_less: "\<forall>y\<in>set ys. weight y < n \<Longrightarrow> 0 < n \<Longrightarrow> max_weight ys < n"
  by (induction ys) (simp_all add: max_weight_def)

lemma max_weight_find_all: "max (weight (Tag n a cs)) (max_weight (find_all nm (Tag n a cs))) = weight (Tag n a cs)"
proof -
  have "max_weight (find_all nm (Tag n a cs)) < weight (Tag n a cs)"
  proof (rule max_weight_less)
    show "\<forall>y\<in>set (find_all nm (Tag n a cs)). weight y < weight (Tag n a cs)"
      using weight_find_all by blast
    show "0 < weight (Tag n a cs)" by simp
  qed
  then show ?thesis by simp
qed

text \<open>
  \<open>convert_to_rst\<close>, the loop over the children (\<open>convert_items\<close>), the body of that loop
  for one child (\<open>convert_item\<close>, which gets the text rendered so far and returns it
  extended) and the loops over the items of a parameter list (\<open>plist_items\<close>). A call
  with \<open>None\<close> or a string for \<open>xml\<close> fails the type assertion of the decorator.
\<close>

function (sequential)
  convert_to_rst :: "prefixes \<Rightarrow> xml \<Rightarrow> ctx_ref \<Rightarrow> ctx_store \<Rightarrow> string result \<times> ctx_store"
  and convert_items :: "prefixes \<Rightarrow> xml list \<Rightarrow> ctx_ref \<Rightarrow> string \<Rightarrow> ctx_store \<Rightarrow> string result \<times> ctx_store"
  and convert_item :: "prefixes \<Rightarrow> xml \<Rightarrow> ctx_ref \<Rightarrow> string \<Rightarrow> ctx_store \<Rightarrow> string result \<times> ctx_store"
  and plist_items :: "prefixes \<Rightarrow> plist_kind \<Rightarrow> xml \<Rightarrow> xml list \<Rightarrow> ctx_ref \<Rightarrow> string \<Rightarrow> ctx_store \<Rightarrow> string result \<times> ctx_store"
where
  "convert_to_rst P (Text s) r st = (Raise AssertionError, st)"
| "convert_to_rst P (Tag nm a cs) r st0 =
     (let st = push_ctx r nm st0;
          is_enum = (map_of a ''kind'' = Some ''enum'');
          st = (if is_enum then push_ctx r ''enum'' st else st)
      in case (if nm = ''compounddef'' \<or> nm = ''memberdef'' then lookup_prefix P a else Return []) of
           Raise e \<Rightarrow> (Raise e, st)
         | Return pre \<Rightarrow>
             (let (is_list, items) = (if nm = ''compounddef'' then compound_items cs else (False, cs))
              in if \<not> is_list \<and> is_enum then
                   (case enum_items cs of
                      None \<Rightarrow> (Raise StopIteration, st)
                    | Some items \<Rightarrow> finish r (convert_items P items r pre st))
                 else finish r (convert_items P items r pre st)))"
| "convert_items P [] r res st = (Return res, st)"
| "convert_items P (x # xs) r res st =
     (case convert_item P x r res st of
        (Return res', st') \<Rightarrow> convert_items P xs r res' st'
      | (Raise e, st') \<Rightarrow> (Raise e, st'))"
| "convert_item P (Text s) r res st = (Return (res @ text_piece s), st)"
| "convert_item P (Tag nm a cs) r res st =
     (let x = Tag nm a cs;
          context = get_ctx r st;
          nl = [CHR 0x0A]
      in if ''enum'' \<in> set context \<and> nm = ''name'' then
           (Return (res @ strip (text_of x)), st)
         else if ''enum'' \<in> set context \<and> nm = ''enumvalue'' then
           append_to (res @ nl @ nl @ indent context @ ''.. cpp:enumerator:: '') (convert_to_rst P x r st)
         else if nm = ''definition'' then
           lift_pure res (render_definition (text_of x)) st
         else if nm = ''argsstring'' then
           (Return (res @ text_of x), st)
         else if nm = ''briefdescription'' then
           append_to (res @ nl @ nl @ indent context) (convert_to_rst P x r st)
         else if nm = ''detaileddescription'' then
           append_to (res @ nl @ indent context) (convert_to_rst P x r st)
         else if nm = ''templateparamlist'' then
           lift_pure res (render_templateparamlist x) st
         else if nm = ''computeroutput'' then
           (Return (if text_of x \<noteq> [] then res @ '' ``'' @ text_of x @ ''``'' else res), st)
         else if nm = ''formula'' then
           (Return (res @ '' :math:`'' @ filter (\<lambda>c. c \<noteq> CHR ''$'') (text_of x) @ ''`''), st)
         else if nm = ''title'' then
           (Return (res @ nl @ nl @ indent context @ '':'' @ lower (text_of x) @ '': ''), st)
         else if nm = ''para'' then
           para_post r (append_to res (convert_to_rst P x r st))
         else if nm = ''simplesect'' \<and> map_of a ''kind'' = None then
           (Raise KeyError, st)
         else if nm = ''simplesect'' \<and> map_of a ''kind'' = Some ''return'' then
           append_to (res @ nl @ nl @ indent context @ '':returns: '') (convert_to_rst P x r st)
         else if nm = ''simplesect'' \<and> map_of a ''kind'' = Some ''par'' then
           append_to res (convert_to_rst P x r st)
         else if nm = ''parameterlist'' \<and> map_of a ''kind'' = None then
           (Raise KeyError, st)
         else if nm = ''parameterlist'' \<and> map_of a ''kind'' = Some ''templateparam'' then
           plist_items P TemplateParam x (find_all ''parameteritem'' x) r res st
         else if nm = ''parameterlist'' \<and> map_of a ''kind'' = Some ''param'' then
           plist_items P Param x (find_all ''parameteritem'' x) r res st
         else if nm = ''parameterlist'' \<and> map_of a ''kind'' = Some ''exception'' then
           plist_items P Exception x (find_all ''parameteritem'' x) r res st
         else if nm = ''simplesect'' \<and> map_of a ''kind'' = Some ''see'' then
           append_to (res @ nl @ nl @ indent context @ ''.. seealso:: '') (convert_to_rst P x r st)
         else if nm = ''ref'' then
           (Return (res @ '' :cpp:''
                      @ (if map_of a ''kindref'' = Some ''member'' then ''member'' else ''any'')
                      @ '':`'' @ text_of x @ ''` ''), st)
         else if nm = ''emphasis'' then
           (Return (res @ '' *'' @ text_of x @ ''*''), st)
         else if nm = ''bold'' then
           (Return (res @ nl @ nl @ indent context @ ''**'' @ text_of x @ ''**''), st)
         else if nm = ''compoundname'' then
           (Return (res @ py_slice (text_of x) (Some (py_rfind (text_of x) ''::'' + 2)) None), st)
         else if nm = ''ulink'' then
           (case map_of a ''url'' of
              None \<Rightarrow> (Raise KeyError, st)
            | Some url \<Rightarrow> (Return (res @ '' `'' @ text_of x @ '' <'' @ url @ ''>`_''), st))
         else if nm = ''itemizedlist'' then
           append_to (res @ nl) (convert_to_rst P x r st)
         else if nm = ''listitem'' then
           append_to (res @ nl @ indent context @ ''* '') (convert_to_rst P x r st)
         else if nm = ''programlisting'' then
           append_to (res @ nl @ nl @ indent context @ ''.. code-block::'' @ nl) (convert_to_rst P x Default st)
         else if nm = ''codeline'' then
           append_to (res @ nl @ indent context) (convert_to_rst P x Default st)
         else if nm = ''highlight'' then
           append_to res (convert_to_rst P x Default st)
         else if nm = ''sp'' then
           (Return (res @ '' ''), st)
         else (Return res, st))"
| "plist_items P k x [] r res st = (Return res, st)"
| "plist_items P TemplateParam x (y # ys) r res st =
     (let res = res @ [CHR 0x0A, CHR 0x0A] @ indent (get_ctx r st)
      in case find_tag ''parametername'' y of
           None \<Rightarrow> (Raise AttributeError, st)
         | Some pn \<Rightarrow>
             (case find_tag ''parameterdescription'' y of
                None \<Rightarrow> (Raise AssertionError, st)
              | Some pd \<Rightarrow>
                  (case append_to (res @ '':tparam '' @ text_of pn @ '': '') (convert_to_rst P pd r st) of
                     (Return res', st') \<Rightarrow> plist_items P TemplateParam x ys r res' st'
                   | (Raise e, st') \<Rightarrow> (Raise e, st'))))"
| "plist_items P Param x (y # ys) r res st =
     (let res = res @ [CHR 0x0A, CHR 0x0A] @ indent (get_ctx r st)
      in case find_tag ''parametername'' y of
           None \<Rightarrow> (Raise AttributeError, st)
         | Some pn \<Rightarrow>
             (case find_tag ''parameterdescription'' x of
                None \<Rightarrow> (Raise AssertionError, st)
              | Some pd \<Rightarrow>
                  (case append_to (res @ '':param '' @ text_of pn @ '': '') (convert_to_rst P pd r st) of
                     (Return res', st') \<Rightarrow> plist_items P Param x ys r res' st'
                   | (Raise e, st') \<Rightarrow> (Raise e, st'))))"
| "plist_items P Exception x (y # ys) r res st =
     (let res = res @ [CHR 0x0A, CHR 0x0A] @ indent (get_ctx r st);
          res = res @ '':throws:'' @ [CHR 0x0A] @ indent (get_ctx r st) @ ''   ''
      in case find_tag ''parametername'' y of
           None \<Rightarrow> (Raise AssertionError, st)
         | Some pn \<Rightarrow>
             (case append_to res (convert_to_rst P pn r st) of
                (Raise e, st') \<Rightarrow> (Raise e, st')
              | (Return res', st') \<Rightarrow>
                  (case find_tag ''parameterdescription'' y of
                     None \<Rightarrow> (Raise AssertionError, st')
                   | Some pd \<Rightarrow>
                       (case append_to res' (convert_to_rst P pd r st') of
                          (Return res'', st'') \<Rightarrow> plist_items P Exception x ys r res'' st''
                        | (Raise e, st'') \<Rightarrow> (Raise e, st'')))))"
  by pat_completeness auto

termination
proof (relation "measures [rst_measure1, rst_measure2]", goal_cases)
  case 1
  show ?case by simp
next
  case (2 P nm a cs r st0 x xa xb x1 xc xd y x2)
  from weight_enum_items[OF \<open>enum_items cs = Some x2\<close>] show ?case
    by (simp add: rst_measure1_def)
next
  case (3 P nm a cs r st0 x xa xb x1 xc xd y)
  have "sum_list (map weight y) \<le> sum_list (map weight cs)"
  proof (cases "nm = ''compounddef''")
    case True
    with 3 have "y = snd (compound_items cs)" by (metis snd_conv)
    then show ?thesis by (simp add: weight_compound_items)
  next
    case False
    with 3 have "y = cs" by simp
    then show ?thesis by simp
  qed
  then show ?case by (simp add: rst_measure1_def)
qed (auto simp add: rst_measure1_def rst_measure2_def max_weight_find_all max_weight_Cons
      simp del: weight.simps find_all.simps dest!: weight_find_tag)

section \<open>Notions for the proofs about the renderer\<close>

text \<open>An element that is not named \<open>enum\<close> unless its kind is \<open>enum\<close> too.\<close>

definition good :: "xml \<Rightarrow> bool" where
  "good x = (tag_name x \<noteq> Some ''enum'' \<or> map_of (attrs x) ''kind'' = Some ''enum'')"

text \<open>The context is left as it was by every returning call on at most \<open>n\<close> elements.\<close>

definition balanced_upto :: "nat \<Rightarrow> bool" where
  "balanced_upto n =
     (\<forall>x P r st s st'. weight x \<le> n \<longrightarrow> good x \<longrightarrow>
        convert_to_rst P x r st = (Return s, st') \<longrightarrow> st' = st)"

text \<open>The tag names that the loop of \<open>convert_to_rst\<close> tests for.\<close>

definition handled_tags :: "string list" where
  "handled_tags =
     [''name'', ''enumvalue'', ''definition'', ''argsstring'', ''briefdescription'',
      ''detaileddescription'', ''templateparamlist'', ''computeroutput'', ''formula'', ''title'',
      ''para'', ''simplesect'', ''parameterlist'', ''ref'', ''emphasis'', ''bold'',
      ''compoundname'', ''ulink'', ''itemizedlist'', ''listitem'', ''programlisting'',
      ''codeline'', ''highlight'', ''sp'']"

text \<open>A result with the caller's own list replaced.\<close>

definition upd_own :: "string list \<Rightarrow> string result \<times> ctx_store \<Rightarrow> string result \<times> ctx_store" where
  "upd_own c rs = (fst rs, (snd rs)\<lparr>own := c\<rparr>)"

text \<open>Calls on the default list, on at most \<open>n\<close> elements, do not depend on the other list.\<close>

definition framed_upto :: "nat \<Rightarrow> bool" where
  "framed_upto n =
     (\<forall>x P st c. weight x \<le> n \<longrightarrow>
        convert_to_rst P x Default (st\<lparr>own := c\<rparr>) = upd_own c (convert_to_rst P x Default st))"

section \<open>The symbol dictionary\<close>

text \<open>
  The introspection files are the entries of the directory \<open>build/xml\<close>. They do not
  change while symbols are looked up, so they are a parameter: an association list from
  paths to entries, where a regular file holds the tree that the parser returns for it
  and a directory is listed by the paths below it. Paths are compared as strings. That a
  file cannot be read, and the memoisation of \<open>doxy_filename\<close>, whose result depends on
  these files only, are not modelled.
\<close>

datatype xml_entry = Doc xml | Folder

type_synonym xml_files = "(string \<times> xml_entry) list"

definition isfile :: "xml_files \<Rightarrow> string \<Rightarrow> bool" where
  "isfile files p = (case map_of files p of Some (Doc _) \<Rightarrow> True | _ \<Rightarrow> False)"

text \<open>\<open>BeautifulSoup(open(p, "r"), "xml")\<close>.\<close>

definition open_xml :: "xml_files \<Rightarrow> string \<Rightarrow> xml result" where
  "open_xml files p =
     (case map_of files p of
        Some (Doc doc) \<Rightarrow> Return doc
      | Some Folder \<Rightarrow> Raise IsADirectoryError
      | None \<Rightarrow> Raise FileNotFoundError)"

definition os_listdir :: "xml_files \<Rightarrow> string \<Rightarrow> string list result" where
  "os_listdir files d =
     (case map_of files d of
        Some Folder \<Rightarrow> Return (listdir d files)
      | Some (Doc _) \<Rightarrow> Raise NotADirectoryError
      | None \<Rightarrow> Raise FileNotFoundError)"

text \<open>
  \<open>doxy_filename\<close>: an underscore is doubled, two colons become \<open>_1_1\<close>, a letter
  \<open>A\<close> to \<open>Z\<close> gets an underscore in front, and the name is lower-cased.
\<close>

definition ascii_upper :: "char \<Rightarrow> bool" where
  "ascii_upper c = (let n = (of_char c :: nat) in 65 \<le> n \<and> n \<le> 90)"

definition mark_upper :: "string \<Rightarrow> string" where
  "mark_upper s = concat (map (\<lambda>c. if ascii_upper c then [CHR ''_'', c] else [c]) s)"

definition doxy_filename :: "xml_files \<Rightarrow> string \<Rightarrow> string" where
  "doxy_filename files name0 =
     (let name = re_sub (m_lit ''_'') ''__'' name0;
          name = re_sub (m_lit ''::'') ''_1_1'' name;
          name = lower (mark_upper name)
      in if isfile files (''build/xml/class'' @ name @ ''.xml'')
         then ''build/xml/class'' @ name @ ''.xml''
         else ''build/xml/struct'' @ name @ ''.xml'')"

text \<open>
  A Python dictionary with string keys: an association list in insertion order, where
  an assignment to a key that is there replaces the value in place.
\<close>

fun dict_set :: "'k \<Rightarrow> 'v \<Rightarrow> ('k \<times> 'v) list \<Rightarrow> ('k \<times> 'v) list" where
  "dict_set k v [] = [(k, v)]"
| "dict_set k v ((k', v') # d) = (if k' = k then (k, v) # d else (k', v') # dict_set k v d)"

definition has_key :: "('k \<times> 'v) list \<Rightarrow> 'k \<Rightarrow> bool" where
  "has_key d k = (map_of d k \<noteq> None)"

text \<open>
  A value of \<open>__DOXY_DICT\<close>: \<open>None\<close> (a file without a \<open>compounddef\<close>), an element, or
  a dictionary from parameter strings to elements. An element stored here can be the
  target of an item assignment, which sets an attribute of the element to another
  element; these attributes are kept beside the element, in the dictionary entry. A copy
  of the element that sits inside another stored element does not show them; nothing in
  \<open>doxy_xml\<close> reads them there.
\<close>

datatype dval = DNone | DTag xml "(string \<times> xml) list" | DDict "(string \<times> xml) list"

type_synonym doxy_dict = "(string \<times> dval) list"

text \<open>What a lookup returns: a value of the dictionary, an element, or an attribute.\<close>

datatype looked = LVal dval | LNode xml | LStr string

text \<open>
  Which file was opened and parsed, and for a class or struct file, for which scope. The
  list of these events is not a variable of the program: it records what the program
  does, so that it can be spoken about.
\<close>

datatype parse_event = ParsedClass string string | ParsedNamespace string

text \<open>
  The state of the lookups: the warning counter and the error stream (in \<open>gen\<close>), the
  dictionary, the events, and the tables of the two memoised functions. A table of
  \<open>lru_cache\<close> gets an entry when the function returns, not when it raises. Its key is
  the tuple of the arguments; every call in the generator but one passes \<open>params\<close>
  explicitly, and the call with \<open>name\<close> alone, which has a key of its own, is left out.
  A table entry holds the value as it was returned.
\<close>

record doxy_state =
  gen :: gen_state
  DOXY_DICT :: doxy_dict
  parsed :: "parse_event list"
  doxy_xml_cache :: "((string \<times> string option) \<times> looked) list"
  doxy_warn_cache :: "(string \<times> string \<times> string option) list"

definition initial_doxy_state :: doxy_state where
  "initial_doxy_state =
     \<lparr>gen = initial_state [], DOXY_DICT = [], parsed = [], doxy_xml_cache = [], doxy_warn_cache = []\<rparr>"

text \<open>
  The loop that walks outwards from a name to the nearest scope with a file. The tuple
  assignment takes both right-hand sides from the old \<open>class_\<close>, so the position lags one
  step behind the name.
\<close>

function resolve_loop :: "xml_files \<Rightarrow> string \<Rightarrow> int \<Rightarrow> string" where
  "resolve_loop files cls pos =
     (if pos \<noteq> - 1 \<and> \<not> isfile files (doxy_filename files cls)
      then resolve_loop files (py_slice cls None (Some pos)) (py_rfind cls ''::'')
      else cls)"
  by pat_completeness auto

lemma rfind_sub_bound: "rfind_sub s p = Some i \<Longrightarrow> i + length p \<le> length s"
proof (induction s arbitrary: i)
  case Nil
  then show ?case by (simp split: if_splits)
next
  case (Cons c s)
  show ?case
  proof (cases "rfind_sub s p")
    case None
    with Cons.prems have st: "startswith (c # s) p" and i: "i = 0"
      by (auto split: if_splits)
    from st have "length (take (length p) (c # s)) = length p"
      by (simp only: startswith_def)
    then have "length p \<le> length (c # s)"
      by (simp only: length_take)
    with i show ?thesis by simp
  next
    case (Some j)
    with Cons.prems have "i = Suc j" by simp
    with Cons.IH[OF Some] show ?thesis by simp
  qed
qed

definition resolve_measure :: "xml_files \<times> string \<times> int \<Rightarrow> nat" where
  "resolve_measure = (\<lambda>(files, cls, pos).
     3 * length cls + (if pos = - 1 then 0 else if 0 \<le> pos \<and> pos < int (length cls) then 1 else 2))"

termination resolve_loop
proof (relation "measure resolve_measure")
  show "wf (measure resolve_measure)" by simp
next
  fix files :: xml_files and cls :: string and pos :: int
  assume a: "pos \<noteq> - 1 \<and> \<not> isfile files (doxy_filename files cls)"
  let ?c = "py_slice cls None (Some pos)" and ?p = "py_rfind cls ''::''"
  have p': "?p = - 1 \<or> (0 \<le> ?p \<and> ?p + 2 \<le> int (length cls))"
    using rfind_sub_bound[of cls "''::''"]
    by (cases "rfind_sub cls ''::''") (auto simp: py_rfind_def)
  have len: "length ?c = (if pos < 0 then nat (int (length cls) + pos) else min (nat pos) (length cls))"
    by (simp add: py_slice_def slice_index_def Let_def)
  consider "0 \<le> pos \<and> pos < int (length cls)" | "int (length cls) \<le> pos" | "pos < - 1"
    using a by linarith
  then have "resolve_measure (files, ?c, ?p) < resolve_measure (files, cls, pos)"
  proof cases
    case 1
    then have n: "nat pos < length cls" by linarith
    from 1 have "\<not> pos < 0" by simp
    with len have "length ?c = min (nat pos) (length cls)" by (simp only: if_False)
    with n have l: "length ?c = nat pos" by simp
    have "resolve_measure (files, ?c, ?p) \<le> 3 * nat pos + 2"
      unfolding resolve_measure_def using l by simp
    moreover have "resolve_measure (files, cls, pos) = 3 * length cls + 1"
      unfolding resolve_measure_def using 1 by simp
    ultimately show ?thesis using n by linarith
  next
    case 2
    then have np: "\<not> pos < 0" by linarith
    with len have "length ?c = min (nat pos) (length cls)" by (simp only: if_False)
    moreover from 2 have "length cls \<le> nat pos" by linarith
    ultimately have l: "length ?c = length cls" by simp
    from p' have "?p = - 1 \<or> (0 \<le> ?p \<and> ?p < int (length ?c))" using l by linarith
    then have "resolve_measure (files, ?c, ?p) \<le> 3 * length cls + 1"
      unfolding resolve_measure_def using l by auto
    moreover have "resolve_measure (files, cls, pos) = 3 * length cls + 2"
      unfolding resolve_measure_def using 2 a by simp
    ultimately show ?thesis by linarith
  next
    case 3
    show ?thesis
    proof (cases "cls = []")
      case True
      then have "?p = - 1" by (simp add: py_rfind_def startswith_def)
      moreover have "resolve_measure (files, cls, pos) = 3 * length cls + 2"
        unfolding resolve_measure_def using 3 by simp
      moreover from True have "length ?c = 0" by (simp add: py_slice_def)
      ultimately show ?thesis unfolding resolve_measure_def using True by simp
    next
      case False
      from 3 len have "length ?c = nat (int (length cls) + pos)" by simp
      with 3 False have lt: "length ?c < length cls" by (cases cls) auto
      have "resolve_measure (files, ?c, ?p) \<le> 3 * length ?c + 2"
        unfolding resolve_measure_def by simp
      moreover have "resolve_measure (files, cls, pos) = 3 * length cls + 2"
        unfolding resolve_measure_def using 3 by simp
      ultimately show ?thesis using lt by linarith
    qed
  qed
  then show "((files, ?c, ?p), (files, cls, pos)) \<in> measure resolve_measure" by simp
qed

declare resolve_loop.simps [simp del]

text \<open>The scope that \<open>doxy_xml\<close> settles on for a name.\<close>

definition resolve_scope :: "xml_files \<Rightarrow> string \<Rightarrow> string" where
  "resolve_scope files name = resolve_loop files name (py_rfind name ''::'')"

subsection \<open>The members of a class or struct file\<close>

definition bind_result :: "'a result \<Rightarrow> ('a \<Rightarrow> 'b result) \<Rightarrow> 'b result" where
  "bind_result r f = (case r of Raise e \<Rightarrow> Raise e | Return v \<Rightarrow> f v)"

text \<open>\<open>[x.find("type").text.strip() for x in ps]\<close>.\<close>

fun types_of :: "xml list \<Rightarrow> string list result" where
  "types_of [] = Return []"
| "types_of (p # ps) =
     (case find_tag ''type'' p of
        None \<Rightarrow> Raise AttributeError
      | Some t \<Rightarrow> bind_result (types_of ps) (\<lambda>ts. Return (strip (text_of t) # ts)))"

text \<open>\<open>x.argsstring.text\<close>.\<close>

definition argsstring_text :: "xml \<Rightarrow> string result" where
  "argsstring_text x =
     (case find_tag ''argsstring'' x of None \<Rightarrow> Raise AttributeError | Some a \<Rightarrow> Return (text_of a))"

text \<open>
  The parameter string under which a function or friend is stored: the types of its
  parameters without those of its template parameters, and the qualifiers.
\<close>

definition member_param :: "xml \<Rightarrow> string result" where
  "member_param x =
     bind_result
       (case find_tag ''templateparamlist'' x of
          None \<Rightarrow> Return None
        | Some t \<Rightarrow> bind_result (types_of (find_all ''param'' t)) (\<lambda>ts. Return (Some ts)))
       (\<lambda>tparam.
     bind_result (types_of (find_all ''param'' x)) (\<lambda>param.
     let param = (case tparam of None \<Rightarrow> param | Some ts \<Rightarrow> filter (\<lambda>p. p \<notin> set ts) param);
         param = ''('' @ join '','' param @ '')''
     in bind_result
          (if map_of (attrs x) ''const'' = Some ''yes'' then Return (param @ '' const'')
           else bind_result (argsstring_text x)
                  (\<lambda>a. Return (if endswith a '' const'' then param @ '' const'' else param)))
          (\<lambda>param.
     let param = (if map_of (attrs x) ''noexcept'' = Some ''yes'' then param @ '' noexcept'' else param)
     in bind_result (argsstring_text x) (\<lambda>a.
     let param = (if endswith a ''=default'' then param @ '' = default'' else param);
         param = (if endswith a ''=delete'' then param @ '' = delete'' else param);
         param = (if endswith a '' override'' then param @ '' override'' else param);
         param = (if endswith a ''=0'' then param @ '' = 0'' else param)
     in Return param))))"

text \<open>
  One round of the loop over the \<open>memberdef\<close> elements of a class or struct file. The
  assignment \<open>__DOXY_DICT[mem_def_name][param] = x\<close> acts on what is stored under the
  name: a dictionary gets the entry, an element gets the attribute, \<open>None\<close> raises.
\<close>

definition class_member :: "string \<Rightarrow> xml \<Rightarrow> doxy_dict \<Rightarrow> unit result \<times> doxy_dict" where
  "class_member cls x d =
     (if (case map_of (attrs x) ''prot'' of Some v \<Rightarrow> v \<noteq> ''public'' | None \<Rightarrow> False)
      then (Return (), d)
      else case find_tag ''name'' x of
        None \<Rightarrow> (Raise AttributeError, d)
      | Some n \<Rightarrow>
          let mem_def_name = cls @ ''::'' @ text_of n
          in if (case map_of (attrs x) ''kind'' of
                   Some k \<Rightarrow> k \<noteq> ''function'' \<and> k \<noteq> ''friend''
                 | None \<Rightarrow> False)
             then (if has_key d mem_def_name then (Raise AssertionError, d)
                   else (Return (), dict_set mem_def_name (DTag x []) d))
             else case member_param x of
               Raise e \<Rightarrow> (Raise e, d)
             | Return param \<Rightarrow>
                 (case map_of d mem_def_name of
                    None \<Rightarrow> (Return (), dict_set mem_def_name (DDict [(param, x)]) d)
                  | Some (DDict m) \<Rightarrow>
                      (Return (), dict_set mem_def_name (DDict (dict_set param x m)) d)
                  | Some (DTag t ex) \<Rightarrow>
                      (Return (), dict_set mem_def_name (DTag t (dict_set param x ex)) d)
                  | Some DNone \<Rightarrow> (Raise TypeError, d)))"

fun class_members :: "string \<Rightarrow> xml list \<Rightarrow> doxy_dict \<Rightarrow> unit result \<times> doxy_dict" where
  "class_members cls [] d = (Return (), d)"
| "class_members cls (x # xs) d =
     (case class_member cls x d of
        (Return _, d') \<Rightarrow> class_members cls xs d'
      | (Raise e, d') \<Rightarrow> (Raise e, d'))"

text \<open>
  The first branch of \<open>doxy_xml\<close>: the file of the scope is parsed, the scope is entered
  in the dictionary, and then its members are. An exception in the loop leaves the scope
  and the members before it in the dictionary.
\<close>

definition load_class :: "xml_files \<Rightarrow> string \<Rightarrow> doxy_state \<Rightarrow> unit result \<times> doxy_state" where
  "load_class files cls s =
     (case open_xml files (doxy_filename files cls) of
        Raise e \<Rightarrow> (Raise e, s)
      | Return doc \<Rightarrow>
          let s = s\<lparr>parsed := parsed s @ [ParsedClass (doxy_filename files cls) cls]\<rparr>;
              v = (case find_tag ''compounddef'' doc of None \<Rightarrow> DNone | Some c \<Rightarrow> DTag c []);
              (r, d) = class_members cls (find_all ''memberdef'' doc) (dict_set cls v (DOXY_DICT s))
          in (r, s\<lparr>DOXY_DICT := d\<rparr>))"

subsection \<open>The namespace files\<close>

fun namespace_members :: "string \<Rightarrow> xml list \<Rightarrow> doxy_dict \<Rightarrow> unit result \<times> doxy_dict" where
  "namespace_members ns [] d = (Return (), d)"
| "namespace_members ns (x # xs) d =
     (case find_tag ''name'' x of
        None \<Rightarrow> (Raise AttributeError, d)
      | Some n \<Rightarrow>
          let y = ns @ ''::'' @ text_of n
          in namespace_members ns xs (if has_key d y then d else dict_set y (DTag x []) d))"

fun namespace_files :: "xml_files \<Rightarrow> string list \<Rightarrow> doxy_state \<Rightarrow> unit result \<times> doxy_state" where
  "namespace_files files [] s = (Return (), s)"
| "namespace_files files (fname # fnames) s =
     (if \<not> startswith fname ''namespace'' then namespace_files files fnames s
      else case open_xml files (''build/xml/'' @ fname) of
        Raise e \<Rightarrow> (Raise e, s)
      | Return doc \<Rightarrow>
          let s = s\<lparr>parsed := parsed s @ [ParsedNamespace (''build/xml/'' @ fname)]\<rparr>
          in case find_tag ''compoundname'' doc of
               None \<Rightarrow> (Raise AttributeError, s)
             | Some c \<Rightarrow>
                 (case namespace_members (text_of c) (find_all ''memberdef'' doc) (DOXY_DICT s) of
                    (Return _, d) \<Rightarrow> namespace_files files fnames (s\<lparr>DOXY_DICT := d\<rparr>)
                  | (Raise e, d) \<Rightarrow> (Raise e, s\<lparr>DOXY_DICT := d\<rparr>)))"

text \<open>The second branch of \<open>doxy_xml\<close>: every namespace file of \<open>build/xml\<close> is parsed.\<close>

definition namespace_scan :: "xml_files \<Rightarrow> doxy_state \<Rightarrow> unit result \<times> doxy_state" where
  "namespace_scan files s =
     (case os_listdir files ''build/xml'' of
        Raise e \<Rightarrow> (Raise e, s)
      | Return fnames \<Rightarrow> namespace_files files fnames s)"

subsection \<open>The lookup\<close>

text \<open>
  \<open>__DOXY_DICT[name]\<close> and \<open>__DOXY_DICT[name][params]\<close>. Subscripting an element gives
  the attribute of that name.
\<close>

definition dict_lookup :: "doxy_dict \<Rightarrow> string \<Rightarrow> string option \<Rightarrow> looked result" where
  "dict_lookup d name params =
     (case map_of d name of
        None \<Rightarrow> Raise KeyError
      | Some v \<Rightarrow>
          (case params of
             None \<Rightarrow> Return (LVal v)
           | Some p \<Rightarrow>
               (case v of
                  DDict m \<Rightarrow> (case map_of m p of None \<Rightarrow> Raise KeyError | Some x \<Rightarrow> Return (LNode x))
                | DTag t ex \<Rightarrow>
                    (case map_of ex p of
                       Some x \<Rightarrow> Return (LNode x)
                     | None \<Rightarrow>
                         (case map_of (attrs t) p of
                            None \<Rightarrow> Raise KeyError
                          | Some a \<Rightarrow> Return (LStr a)))
                | DNone \<Rightarrow> Raise TypeError)))"

text \<open>
  The body of \<open>doxy_xml\<close>: when the name is not in the dictionary, the dictionary is
  filled from the file of the scope or from the namespace files; then the name is looked
  up.
\<close>

definition populate :: "xml_files \<Rightarrow> string \<Rightarrow> doxy_state \<Rightarrow> unit result \<times> doxy_state" where
  "populate files name s =
     (if \<not> has_key (DOXY_DICT s) name then
        (let cls = resolve_scope files name
         in if isfile files (doxy_filename files cls) \<and> \<not> has_key (DOXY_DICT s) cls
            then load_class files cls s
            else if \<not> has_key (DOXY_DICT s) cls then namespace_scan files s
            else (Return (), s))
      else (Return (), s))"

definition doxy_xml_body ::
  "xml_files \<Rightarrow> string \<Rightarrow> string option \<Rightarrow> doxy_state \<Rightarrow> looked result \<times> doxy_state" where
  "doxy_xml_body files name params s =
     (case populate files name s of
        (Raise e, s') \<Rightarrow> (Raise e, s')
      | (Return _, s') \<Rightarrow> (dict_lookup (DOXY_DICT s') name params, s'))"

text \<open>\<open>doxy_xml\<close> with its table.\<close>

definition doxy_xml ::
  "xml_files \<Rightarrow> string \<Rightarrow> string option \<Rightarrow> doxy_state \<Rightarrow> looked result \<times> doxy_state" where
  "doxy_xml files name params s =
     (case map_of (doxy_xml_cache s) (name, params) of
        Some v \<Rightarrow> (Return v, s)
      | None \<Rightarrow>
          (case doxy_xml_body files name params s of
             (Return v, s') \<Rightarrow>
               (Return v, s'\<lparr>doxy_xml_cache := doxy_xml_cache s' @ [((name, params), v)]\<rparr>)
           | (Raise e, s') \<Rightarrow> (Raise e, s')))"

text \<open>\<open>doxy_warn\<close> with its table; it returns \<open>None\<close>.\<close>

definition doxy_warn :: "string \<Rightarrow> string \<Rightarrow> string option \<Rightarrow> doxy_state \<Rightarrow> doxy_state" where
  "doxy_warn fname name params s =
     (if (fname, name, params) \<in> set (doxy_warn_cache s) then s
      else s\<lparr>gen := warn fname
                     (''no doxygen output found for '' @ name @ (case params of None \<Rightarrow> [] | Some p \<Rightarrow> p))
                     (gen s),
             doxy_warn_cache := doxy_warn_cache s @ [(fname, name, params)]\<rparr>)"

subsection \<open>Sequences of calls\<close>

text \<open>
  What a process does with the dictionary and the warnings is a sequence of calls of
  \<open>doxy_xml\<close> and \<open>doxy_warn\<close>, each on the state the one before it left, whether it
  returned or raised. \<open>calls\<close> runs such a sequence and collects the results of the
  lookups.
\<close>

datatype call = Lookup string "string option" | Warn string string "string option"

fun calls :: "xml_files \<Rightarrow> call list \<Rightarrow> doxy_state \<Rightarrow> looked result list \<times> doxy_state" where
  "calls files [] s = ([], s)"
| "calls files (Lookup name params # cs) s =
     (case doxy_xml files name params s of
        (r, s') \<Rightarrow> (case calls files cs s' of (rs, s'') \<Rightarrow> (r # rs, s'')))"
| "calls files (Warn fname name params # cs) s = calls files cs (doxy_warn fname name params s)"

text \<open>The arguments of the warnings of a sequence, and whether a call is a warning.\<close>

fun warned :: "call list \<Rightarrow> (string \<times> string \<times> string option) list" where
  "warned [] = []"
| "warned (Lookup name params # cs) = warned cs"
| "warned (Warn fname name params # cs) = (fname, name, params) # warned cs"

fun is_warn :: "call \<Rightarrow> bool" where
  "is_warn (Lookup name params) = False"
| "is_warn (Warn fname name params) = True"

text \<open>The scopes whose class or struct file was parsed, in the order of the events.\<close>

fun class_scopes :: "parse_event list \<Rightarrow> string list" where
  "class_scopes [] = []"
| "class_scopes (ParsedClass p c # es) = c # class_scopes es"
| "class_scopes (ParsedNamespace p # es) = class_scopes es"

text \<open>
  A key that cannot be resolved in a state: no result for it is in the table, its name
  is not in the dictionary, the scope the loop settles on has no file, and either that
  scope is in the dictionary, or the scan of the namespace files completes without
  entering the name.
\<close>

definition unresolvable :: "xml_files \<Rightarrow> string \<Rightarrow> string option \<Rightarrow> doxy_state \<Rightarrow> bool" where
  "unresolvable files name params s =
     (map_of (doxy_xml_cache s) (name, params) = None
      \<and> \<not> has_key (DOXY_DICT s) name
      \<and> \<not> isfile files (doxy_filename files (resolve_scope files name))
      \<and> (if has_key (DOXY_DICT s) (resolve_scope files name) then True
         else case namespace_scan files s of
                (Return _, s') \<Rightarrow> \<not> has_key (DOXY_DICT s') name
              | (Raise e, s') \<Rightarrow> False))"

text \<open>
  An example of \<open>build/xml\<close>: the file of a namespace \<open>ns\<close> with a function \<open>f\<close>, and the
  file of a class \<open>A\<close> with a function \<open>f\<close> and a variable \<open>v\<close>.
\<close>

definition example_files :: xml_files where
  "example_files =
     [(''build/xml'', Folder),
      (''build/xml/namespacens.xml'',
         Doc (Tag ''[document]'' [] [Tag ''compounddef'' []
               [Tag ''compoundname'' [] [Text ''ns''],
                Tag ''memberdef'' [(''kind'', ''function'')] [Tag ''name'' [] [Text ''f'']]]])),
      (''build/xml/class_a.xml'',
         Doc (Tag ''[document]'' [] [Tag ''compounddef'' []
               [Tag ''compoundname'' [] [Text ''A''],
                Tag ''memberdef'' [(''kind'', ''function''), (''prot'', ''public'')]
                  [Tag ''name'' [] [Text ''f''], Tag ''argsstring'' [] [Text ''(int x) const''],
                   Tag ''param'' [] [Tag ''type'' [] [Text ''int'']]],
                Tag ''memberdef'' [(''kind'', ''variable''), (''prot'', ''public'')]
                  [Tag ''name'' [] [Text ''v'']]]]))]"

chapter \<open>Verification\<close>

section \<open>Name normalisation\<close>

lemma of_char_lower: "isupper c \<Longrightarrow> (of_char (lower_char c) :: nat) = of_char c + 32"
  unfolding lower_char_def isupper_def Let_def
  apply (simp only: if_True of_char_of)
  apply (rule mod_less)
  apply arith
  done

lemma not_isupper_lower: "\<not> isupper (lower_char c)"
proof (cases "isupper c")
  case True
  have "(of_char (lower_char c) :: nat) = of_char c + 32" by (rule of_char_lower[OF True])
  with True show ?thesis unfolding isupper_def Let_def by arith
next
  case False thus ?thesis by (simp add: lower_char_def)
qed

lemma isword_lower: "isword c \<Longrightarrow> isword (lower_char c)"
proof (cases "isupper c")
  case True
  define n where "n = (of_char c :: nat)"
  have m: "(of_char (lower_char c) :: nat) = n + 32"
    unfolding n_def by (rule of_char_lower[OF True])
  from True consider "65 \<le> n \<and> n \<le> 90" | "192 \<le> n \<and> n \<le> 214" | "216 \<le> n \<and> n \<le> 222"
    unfolding isupper_def Let_def n_def by arith
  then have "isalnum (lower_char c)"
  proof cases
    case 1
    then have "97 \<le> n + 32 \<and> n + 32 \<le> 122" by simp
    then show ?thesis unfolding isalnum_def Let_def m by blast
  next
    case 2
    then have "216 \<le> n + 32 \<and> n + 32 \<le> 246" by simp
    then show ?thesis unfolding isalnum_def Let_def m by blast
  next
    case 3
    then have "248 \<le> n + 32 \<and> n + 32 \<le> 255" by simp
    then show ?thesis unfolding isalnum_def Let_def m by blast
  qed
  thus ?thesis by (simp add: isword_def)
next
  case False 
  assume "isword c"
  with False show ?thesis by (simp add: lower_char_def)
qed

lemma lower_noop: "\<forall>c\<in>set s. \<not> isupper c \<Longrightarrow> lower s = s"
  by (induction s) (auto simp: lower_def lower_char_def)

lemma re_sub_noop:
  assumes "\<And>t. \<forall>c\<in>set t. P c \<Longrightarrow> m t = None"
  shows "\<forall>c\<in>set s. P c \<Longrightarrow> re_sub m repl s = s"
proof (induction s)
  case Nil
  show ?case by simp
next
  case (Cons c t)
  have "m (c # t) = None" using assms Cons.prems by blast
  with Cons show ?case by simp
qed

lemma startswith_set: "startswith s p \<Longrightarrow> set p \<subseteq> set s"
  unfolding startswith_def by (metis set_take_subset)

lemma m_lit_none: "x \<in> set p \<Longrightarrow> x \<notin> set s \<Longrightarrow> m_lit p s = None"
  using startswith_set[of s p] by (auto simp: m_lit_def)

lemma of_char_bound: "(of_char c :: nat) < 256"
proof -
  have "(of_char c :: nat) mod 256 = of_char c" by (rule of_char_mod_256)
  moreover have "(of_char c :: nat) mod 256 < 256" by simp
  ultimately show ?thesis by simp
qed

lemma cps_bound: "\<forall>c\<in>set (cps l). c < 256"
  by (simp add: cps_def of_char_bound)

lemma cp_isword_of_char: "cp_isword (of_char c) = isword c"
  by (simp add: cp_isword_def of_char_bound)

lemma not_cp_isword_punct:
  "\<not> cp_isword 0x2A" "\<not> cp_isword 0x21" "\<not> cp_isword 0x28" "\<not> cp_isword 0x3C"
  "\<not> cp_isword 0x3D" "\<not> cp_isword 0x3E"
  by code_simp+

lemma m_operator_star_none: "0x2A \<notin> set s \<Longrightarrow> m_operator_star s = None"
proof -
  assume a: "0x2A \<notin> set s"
  have "\<not> startswith (dropWhile cp_isspace (drop 8 s)) (cps ''*'')"
  proof
    assume "startswith (dropWhile cp_isspace (drop 8 s)) (cps ''*'')"
    then have "set (cps ''*'') \<subseteq> set (dropWhile cp_isspace (drop 8 s))" by (rule startswith_set)
    then have "0x2A \<in> set (dropWhile cp_isspace (drop 8 s))" by (simp add: cps_def)
    then have "0x2A \<in> set (drop 8 s)" by (rule set_dropWhileD)
    then have "0x2A \<in> set s" by (rule in_set_dropD)
    with a show False by simp
  qed
  then show ?thesis by (simp add: m_operator_star_def Let_def)
qed

lemma m_operator_less_end_none: "0x3C \<notin> set s \<Longrightarrow> m_operator_less_end s = None"
  by (auto simp: m_operator_less_end_def cps_def)

lemma m_nonword_none: "\<forall>c\<in>set s. cp_isword c \<Longrightarrow> m_nonword s = None"
  by (cases s) (auto simp: m_nonword_def)

lemma m_nonword_Cons: "m_nonword (c # t) = (if cp_isword c then None else Some 1)"
  by (simp add: m_nonword_def)

lemma isword_re_sub_nonword: "\<forall>c\<in>set (re_sub m_nonword (cps ''_'') s). cp_isword c"
proof (induction s)
  case Nil
  show ?case by simp
next
  case (Cons c t)
  have "cp_isword 0x5F" by code_simp
  then have u: "\<forall>c\<in>set (cps ''_''). cp_isword c" by (simp add: cps_def)
  show ?case
  proof (cases "cp_isword c")
    case True
    with Cons show ?thesis by (simp add: m_nonword_Cons)
  next
    case False
    with Cons u show ?thesis by (auto simp: m_nonword_Cons)
  qed
qed

lemma re_sub_noop_char:
  assumes "\<And>t. x \<notin> set t \<Longrightarrow> m t = None" and "x \<notin> set s"
  shows "re_sub m repl s = s"
  using assms(2)
proof (induction s)
  case Nil
  show ?case by simp
next
  case (Cons c t)
  have "m (c # t) = None" using assms(1) Cons.prems by blast
  moreover have "x \<notin> set t" using Cons.prems by simp
  ultimately show ?case using Cons.IH by simp
qed

text \<open>A substitution keeps a property that the string and the replacement share.\<close>

lemma re_sub_pres:
  assumes r: "\<forall>c\<in>set repl. P c"
  shows "\<forall>c\<in>set s. P c \<Longrightarrow> \<forall>c\<in>set (re_sub m repl s). P c"
proof (induction "length s" arbitrary: s rule: less_induct)
  case less
  show ?case
  proof (cases s)
    case Nil
    then show ?thesis by simp
  next
    case (Cons c t)
    from less.prems Cons have pc: "P c" and pt: "\<forall>c\<in>set t. P c" by simp_all
    from Cons have lt: "length t < length s" by simp
    have it: "\<forall>c\<in>set (re_sub m repl t). P c" by (rule less.hyps[OF lt pt])
    show ?thesis
    proof (cases "m (c # t)")
      case None
      with Cons pc it show ?thesis by simp
    next
      case (Some k)
      show ?thesis
      proof (cases k)
        case 0
        with Some Cons pc it show ?thesis by simp
      next
        case (Suc n)
        have "length (drop n t) < length s" using Cons by simp
        moreover have "\<forall>c\<in>set (drop n t). P c" using pt by (meson in_set_dropD)
        ultimately have "\<forall>c\<in>set (re_sub m repl (drop n t)). P c" by (rule less.hyps)
        with Some Suc Cons r show ?thesis by auto
      qed
    qed
  qed
qed

text \<open>
  The lower case of a word character below 256 is one code point below 256, a word
  character that is its own lower case.
\<close>

lemma lower_char_idem: "lower_char (lower_char c) = lower_char c"
  using not_isupper_lower[of c] by (simp add: lower_char_def)

lemma cp_lower_word:
  assumes "c < 256" "cp_isword c"
  shows "\<exists>d. cp_lower c = [d] \<and> settled d"
proof -
  let ?d = "of_char (lower_char (char_of c)) :: nat"
  from assms have w: "isword (char_of c)" by (simp add: cp_isword_def)
  have 1: "cp_lower c = [?d]" using assms(1) by (simp add: cp_lower_def)
  have 2: "?d < 256" by (rule of_char_bound)
  have 3: "cp_isword ?d" using isword_lower[OF w] by (simp add: cp_isword_of_char)
  have 4: "cp_lower ?d = [?d]" using 2 by (simp add: cp_lower_def lower_char_idem)
  from 1 2 3 4 show ?thesis by (simp add: settled_def)
qed

lemma lower_cps_settled: "\<forall>c\<in>set s. settled c \<Longrightarrow> lower_cps s = s"
  by (induction s) (simp_all add: lower_cps_def settled_def)

lemma filename_fixed:
  assumes w: "\<forall>c\<in>set s. settled c"
  shows "filename_from_cppname s = Some s"
proof -
  from w have t: "list_all in_table s" by (simp add: list_all_iff settled_def in_table_def)
  from w have ww: "\<forall>c\<in>set s. cp_isword c" by (simp add: settled_def)
  have n: "0x2A \<notin> set s" "0x21 \<notin> set s" "0x28 \<notin> set s" "0x3C \<notin> set s"
     "0x3D \<notin> set s" "0x3E \<notin> set s"
    using ww not_cp_isword_punct by blast+
  have 1: "re_sub m_operator_star r s = s" for r
    using n(1) by (rule re_sub_noop_char[where x="0x2A", rotated]) (rule m_operator_star_none)
  have 2: "re_sub (m_lit (cps ''operator!='')) r s = s" for r
    using n(2) by (rule re_sub_noop_char[where x="0x21", rotated]) (rule m_lit_none, simp_all add: cps_def)
  have 3: "re_sub (m_lit (cps ''operator()'')) r s = s" for r
    using n(3) by (rule re_sub_noop_char[where x="0x28", rotated]) (rule m_lit_none, simp_all add: cps_def)
  have 4: "re_sub m_operator_less_end r s = s" for r
    using n(4) by (rule re_sub_noop_char[where x="0x3C", rotated]) (rule m_operator_less_end_none)
  have 5: "re_sub (m_lit (cps ''operator<<'')) r s = s" for r
    using n(4) by (rule re_sub_noop_char[where x="0x3C", rotated]) (rule m_lit_none, simp_all add: cps_def)
  have 6: "re_sub (m_lit (cps ''operator=='')) r s = s" for r
    using n(5) by (rule re_sub_noop_char[where x="0x3D", rotated]) (rule m_lit_none, simp_all add: cps_def)
  have 7: "re_sub (m_lit (cps ''operator>'')) r s = s" for r
    using n(6) by (rule re_sub_noop_char[where x="0x3E", rotated]) (rule m_lit_none, simp_all add: cps_def)
  have 8: "re_sub m_nonword r s = s" for r
    using ww by (rule re_sub_noop[where P=cp_isword, rotated]) (rule m_nonword_none)
  show ?thesis
    unfolding filename_from_cppname_def Let_def 1 2 3 4 5 6 7 8
    using t lower_cps_settled[OF w] by simp
qed

lemma filename_chars:
  assumes x: "\<forall>c\<in>set x. c < 256"
  shows "\<exists>y. filename_from_cppname x = Some y \<and> (\<forall>d\<in>set y. settled d)"
proof -
  let ?z = "re_sub m_nonword (cps ''_'')
      (re_sub (m_lit (cps ''operator>'')) (cps ''operator_greater'')
      (re_sub (m_lit (cps ''operator=='')) (cps ''operator_equal_to'')
      (re_sub (m_lit (cps ''operator<<'')) (cps ''insertion_operator'')
      (re_sub m_operator_less_end (cps ''operator_less'')
      (re_sub (m_lit (cps ''operator()'')) (cps ''call_operator'')
      (re_sub (m_lit (cps ''operator!='')) (cps ''operator_not_eq'')
      (re_sub m_operator_star (cps ''operator_star'') x)))))))"
  from x have t: "list_all in_table x" by (simp add: list_all_iff in_table_def)
  then have e: "filename_from_cppname x = Some (lower_cps ?z)"
    by (simp add: filename_from_cppname_def Let_def)
  have b: "\<forall>c\<in>set ?z. c < 256"
    by (intro re_sub_pres[where P="\<lambda>c. c < 256"] cps_bound x)
  have w: "\<forall>c\<in>set ?z. cp_isword c" by (rule isword_re_sub_nonword)
  have "\<forall>d\<in>set (lower_cps ?z). settled d"
  proof
    fix d assume "d \<in> set (lower_cps ?z)"
    then obtain c where c: "c \<in> set ?z" and d: "d \<in> set (cp_lower c)"
      by (auto simp: lower_cps_def)
    from c b w have "c < 256" "cp_isword c" by blast+
    from cp_lower_word[OF this] d show "settled d" by auto
  qed
  with e show ?thesis by simp
qed

text \<open>
  Claim C9, as the source has it. Filename normalisation is idempotent on every string
  of code points below 256: the result of \<open>filename_from_cppname\<close> is a string that
  \<open>filename_from_cppname\<close> returns as it is. The function is a HOL function of its
  argument alone (the source reads and writes no global), so equal inputs give equal
  outputs.
\<close>

theorem filename_from_cppname_idempotent:
  assumes "\<forall>c\<in>set x. c < 256"
  shows "\<exists>y. filename_from_cppname x = Some y \<and> filename_from_cppname y = Some y"
proof -
  from filename_chars[OF assms] obtain y
    where "filename_from_cppname x = Some y" and "\<forall>d\<in>set y. settled d" by blast
  with filename_fixed[of y] show ?thesis by blast
qed

theorem filename_from_cppname_idempotent_witness:
  "list_all (\<lambda>c. c < 256) (cps ''Foo<Bar>::operator=='')
   \<and> filename_from_cppname (cps ''Foo<Bar>::operator=='') = Some (cps ''foo_bar___operator_equal_to'')
   \<and> filename_from_cppname (cps ''foo_bar___operator_equal_to'') = Some (cps ''foo_bar___operator_equal_to'')"
proof -
  have h: "\<forall>c\<in>set (cps ''Foo<Bar>::operator==''). c < 256" by (rule cps_bound)
  have e: "filename_from_cppname (cps ''Foo<Bar>::operator=='') = Some (cps ''foo_bar___operator_equal_to'')"
    by code_simp
  from filename_from_cppname_idempotent[OF h] e h show ?thesis by (auto simp: list_all_iff)
qed

text \<open>
  The claim as stated fails on the capital letter I with a dot above: the first call
  gives the letter i and the combining dot above, and the second call, for which the
  combining dot is not a word character, gives the letter i and an underscore.
\<close>

theorem filename_from_cppname_dotted_I_counterexample:
  "filename_from_cppname [0x130] = Some [0x69, 0x307]
   \<and> filename_from_cppname [0x69, 0x307] = Some [0x69, 0x5F]"
  by code_simp

section \<open>Signature extraction\<close>

lemma find_sub_absent: "x \<notin> set s \<Longrightarrow> find_sub s [x] = None"
  by (induction s) (auto simp: startswith_def)

lemma set_strip: "set (strip s) \<subseteq> set s"
proof
  fix x assume "x \<in> set (strip s)"
  then have "x \<in> set (dropWhile isspace (rev (dropWhile isspace s)))" by (simp add: strip_def)
  then have "x \<in> set (rev (dropWhile isspace s))" by (rule set_dropWhileD)
  then have "x \<in> set (dropWhile isspace s)" by simp
  then show "x \<in> set s" by (rule set_dropWhileD)
qed

lemma extract_without_parenthesis:
  assumes "CHR ''('' \<notin> set s"
  shows "extract_yml_func_signature s = (strip s, None)"
proof -
  from assms set_strip[of s] have "CHR ''('' \<notin> set (strip s)" by blast
  then have "find_sub (strip s) ''('' = None" by (rule find_sub_absent)
  then have "py_find (strip s) ''('' = - 1" by (simp add: py_find_def)
  then show ?thesis by (simp add: extract_yml_func_signature_def Let_def)
qed

text \<open>
  Claim C6. The documented behaviour of \<open>extract_yml_func_signature\<close>: the entry
  \<open>foo(int, double)\<close> gives the name \<open>foo\<close> with the parameters \<open>(int,double)\<close>; every
  entry without an opening parenthesis gives the stripped entry with \<open>None\<close>, as the
  entry \<open>bar\<close> gives \<open>bar\<close> with \<open>None\<close>; and the entry
  \<open>template <typename T> foo(T x)\<close> gives the bare name \<open>foo\<close> with a parameter string
  that is not \<open>None\<close>.
\<close>

theorem extract_yml_func_signature_examples:
  "extract_yml_func_signature ''foo(int, double)'' = (''foo'', Some ''(int,double)'')
   \<and> (CHR ''('' \<notin> set s \<longrightarrow> extract_yml_func_signature s = (strip s, None))
   \<and> extract_yml_func_signature ''bar'' = (''bar'', None)
   \<and> fst (extract_yml_func_signature ''template <typename T> foo(T x)'') = ''foo''
   \<and> snd (extract_yml_func_signature ''template <typename T> foo(T x)'') \<noteq> None"
proof -
  have 1: "extract_yml_func_signature ''foo(int, double)'' = (''foo'', Some ''(int,double)'')"
    by code_simp
  have 2: "extract_yml_func_signature ''bar'' = (''bar'', None)"
    by code_simp
  have 3: "extract_yml_func_signature ''template <typename T> foo(T x)'' = (''foo'', Some ''(T x)'')"
    by code_simp
  show ?thesis unfolding 1 2 3 using extract_without_parenthesis[of s] by simp
qed

theorem extract_yml_func_signature_examples_witness:
  "CHR ''('' \<notin> set ''  bar baz '' \<and> strip ''  bar baz '' = ''bar baz''
   \<and> extract_yml_func_signature ''  bar baz '' = (''bar baz'', None)"
proof -
  have h: "CHR ''('' \<notin> set ''  bar baz ''" by simp
  have e: "strip ''  bar baz '' = ''bar baz''" by code_simp
  from extract_yml_func_signature_examples[of "''  bar baz ''"] h e show ?thesis by simp
qed

section \<open>Parameter normalisation\<close>

lemma render_Nil [simp]: "render [] = []"
  by (simp add: render_def)

lemma render_Cons [simp]: "render ((c, w) # ts) = c # w @ render ts"
  by (simp add: render_def)

lemma render_append: "render (a @ b) = render a @ render b"
  by (simp add: render_def)

lemma allspace_Nil [simp]: "allspace []"
  by (simp add: allspace_def)

lemma allspace_Cons [simp]: "allspace (x # w) = (isspace x \<and> allspace w)"
  by (simp add: allspace_def)

lemma wft_Nil [simp]: "wft []"
  by (simp add: wft_def)

lemma wft_Cons [simp]: "wft ((c, w) # ts) = (\<not> isspace c \<and> allspace w \<and> wft ts)"
  by (simp add: wft_def)

lemma wft_append: "wft (a @ b) = (wft a \<and> wft b)"
  by (simp add: wft_def)

lemma closed_Cons: "closed ((c, w) # ts) = (if ts = [] then w = [] else closed ts)"
  by (simp add: closed_def)


lemma headok_simps [simp]: "headok []" "headok (x # r) = (\<not> isspace x)"
  by (simp_all add: headok_def)

lemma headok_render: "wft ts \<Longrightarrow> headok (render ts)"
  by (cases ts) auto

lemma takeWhile_run: "allspace w \<Longrightarrow> headok r \<Longrightarrow> takeWhile isspace (w @ r) = w"
  by (induction w) (auto simp: headok_def split: list.splits)

lemma dropWhile_run: "allspace w \<Longrightarrow> headok r \<Longrightarrow> dropWhile isspace (w @ r) = r"
  by (induction w) (auto simp: headok_def split: list.splits)

lemma tok_induct [case_names Nil One Two]:
  assumes "P []" "\<And>c w. P [(c, w)]"
    and "\<And>c w d v ts. P ((d, v) # ts) \<Longrightarrow> P ((c, w) # (d, v) # ts)"
  shows "P (ts :: tok list)"
  using assms by (induction ts rule: induct_list012) auto

subsection \<open>Two or more white-space characters\<close>

lemma m_ws2_nonspace: "\<not> isspace c \<Longrightarrow> m_ws2 (c # s) = None"
  by (simp add: m_ws2_def)

lemma collapse_run:
  assumes "allspace u" "headok r"
  shows "re_sub m_ws2 '' '' (u @ r) = g_ws2 c u d @ re_sub m_ws2 '' '' r"
proof (cases u)
  case Nil
  then show ?thesis by (simp add: g_ws2_def)
next
  case (Cons x u')
  have t: "takeWhile isspace (x # u' @ r) = x # u'"
    using takeWhile_run[OF assms] Cons by simp
  show ?thesis
  proof (cases u')
    case Nil
    with Cons t have "m_ws2 (x # r) = None" by (simp add: m_ws2_def)
    with Cons Nil show ?thesis by (simp add: g_ws2_def)
  next
    case (Cons y u'')
    with t \<open>u = x # u'\<close> have "m_ws2 (u @ r) = Some (Suc (length u'))"
      by (simp add: m_ws2_def)
    with \<open>u = x # u'\<close> Cons show ?thesis by (simp add: g_ws2_def)
  qed
qed

lemma collapse_render:
  "wft ts \<Longrightarrow> closed ts \<Longrightarrow> re_sub m_ws2 '' '' (render ts) = render (gm g_ws2 ts)"
proof (induction ts rule: tok_induct)
  case Nil
  show ?case by simp
next
  case (One c w)
  then show ?case by (simp add: closed_def m_ws2_nonspace)
next
  case (Two c w d v ts)
  have h: "headok (render ((d, v) # ts))" using Two.prems by simp
  have "re_sub m_ws2 '' '' (render ((c, w) # (d, v) # ts))
      = c # re_sub m_ws2 '' '' (w @ render ((d, v) # ts))"
    using Two.prems by (simp add: m_ws2_nonspace)
  also have "\<dots> = c # g_ws2 c w d @ re_sub m_ws2 '' '' (render ((d, v) # ts))"
    using collapse_run[where u=w and c=c and d=d, OF _ h] Two.prems by simp
  also have "\<dots> = c # g_ws2 c w d @ render (gm g_ws2 ((d, v) # ts))"
    using Two.IH Two.prems by (simp add: closed_Cons)
  finally show ?case by simp
qed

subsection \<open>Inserted spaces\<close>

lemma ins_run:
  assumes P: "\<And>x. P x \<Longrightarrow> \<not> isspace x"
  shows "allspace u \<Longrightarrow> insert_between P Q (u @ r) = u @ insert_between P Q r"
proof (induction u)
  case Nil
  show ?case by simp
next
  case (Cons x u)
  then have nx: "\<not> P x" using P by auto
  show ?case
  proof (cases "u @ r")
    case Nil
    then show ?thesis by simp
  next
    case (Cons y t)
    have "insert_between P Q (x # u @ r) = x # insert_between P Q (u @ r)"
      unfolding Cons using nx by simp
    then show ?thesis using Cons.IH \<open>allspace (x # u)\<close> by simp
  qed
qed

lemma g_ins_Cons: "g_ins P Q c (x # w) d = x # w"
  by (simp add: g_ins_def)

lemma g_ins_Nil: "g_ins P Q c [] d = (if P c \<and> Q d then '' '' else [])"
  by (simp add: g_ins_def)

lemma ins_render:
  assumes P: "\<And>x. P x \<Longrightarrow> \<not> isspace x" and Q: "\<And>x. Q x \<Longrightarrow> \<not> isspace x"
  shows "wft ts \<Longrightarrow> insert_between P Q (render ts) = render (gm (g_ins P Q) ts)"
proof (induction ts rule: tok_induct)
  case Nil
  show ?case by simp
next
  case (One c w)
  note 2 = One
  have t: "(c, w) = (c, w)" by simp
  show ?case
  proof (cases w)
    case Nil
    with t show ?thesis by simp
  next
    case (Cons x w')
    with 2 t have "\<not> Q x" using Q by auto
    then have "insert_between P Q (c # x # w') = c # insert_between P Q ((x # w') @ [])"
      by simp
    also have "\<dots> = c # x # w'"
      using ins_run[where P=P and Q=Q and u="x # w'" and r="[]", OF P] 2 Cons by simp
    finally show ?thesis using t Cons by simp
  qed
next
  case (Two c w d v ts)
  note 3 = Two
  let ?R = "render ((d, v) # ts)"
  have IH: "insert_between P Q ?R = render (gm (g_ins P Q) ((d, v) # ts))"
    using 3 by simp
  have goal: "render (gm (g_ins P Q) ((c, w) # (d, v) # ts))
      = c # g_ins P Q c w d @ render (gm (g_ins P Q) ((d, v) # ts))"
    by simp
  show ?case
  proof (cases w)
    case Nil
    have "insert_between P Q (render ((c, w) # (d, v) # ts))
        = c # g_ins P Q c [] d @ insert_between P Q ?R"
      unfolding Nil by (simp add: g_ins_Nil)
    then show ?thesis using goal IH unfolding Nil by simp
  next
    case (Cons x w')
    with 3 have "\<not> Q x" using Q by auto
    then have "insert_between P Q (render ((c, w) # (d, v) # ts))
        = c # insert_between P Q ((x # w') @ ?R)"
      unfolding Cons by simp
    also have "\<dots> = c # (x # w') @ insert_between P Q ?R"
      using ins_run[where P=P and Q=Q and u="x # w'" and r="?R", OF P] 3 Cons by simp
    also have "\<dots> = c # g_ins P Q c w d @ insert_between P Q ?R"
      unfolding Cons g_ins_Cons ..
    finally show ?thesis using goal IH by simp
  qed
qed

subsection \<open>White space around commas\<close>

lemma m_comma_other: "\<not> isspace c \<Longrightarrow> c \<noteq> CHR '','' \<Longrightarrow> m_comma (c # s) = None"
  by (simp add: m_comma_def)

lemma comma_run_other:
  assumes "headok r" "r = [] \<or> hd r \<noteq> CHR '',''"
  shows "allspace u \<Longrightarrow> re_sub m_comma '','' (u @ r) = u @ re_sub m_comma '','' r"
proof (induction u)
  case Nil
  show ?case by simp
next
  case (Cons x u)
  then have a: "allspace (x # u)" by simp
  have "dropWhile isspace ((x # u) @ r) = r"
    by (rule dropWhile_run[OF a assms(1)])
  then have "m_comma (x # u @ r) = None"
    using assms(2) by (cases r) (simp_all add: m_comma_def)
  then have "re_sub m_comma '','' (x # u @ r) = x # re_sub m_comma '','' (u @ r)"
    by simp
  then show ?case using Cons.IH a by simp
qed

lemma comma_run_comma:
  assumes u: "allspace u" and w: "allspace w" and r: "headok r"
  shows "re_sub m_comma '','' (u @ CHR '','' # w @ r) = CHR '','' # re_sub m_comma '','' r"
proof -
  have nc: "headok (CHR '','' # w @ r)" by (simp add: isspace_def)
  have d: "dropWhile isspace (u @ CHR '','' # w @ r) = CHR '','' # w @ r"
    by (rule dropWhile_run[OF u nc])
  have t: "takeWhile isspace (u @ CHR '','' # w @ r) = u"
    by (rule takeWhile_run[OF u nc])
  have t2: "takeWhile isspace (w @ r) = w"
    by (rule takeWhile_run[OF w r])
  have m: "m_comma (u @ CHR '','' # w @ r) = Some (Suc (length u + length w))"
    unfolding m_comma_def d t using t2 by simp
  show ?thesis
  proof (cases u)
    case Nil
    with m have "m_comma (CHR '','' # w @ r) = Some (Suc (length w))" by simp
    then show ?thesis unfolding Nil by simp
  next
    case (Cons x u')
    with m have "m_comma (x # u' @ CHR '','' # w @ r) = Some (Suc (length u' + 1 + length w))"
      by simp
    then show ?thesis unfolding Cons by simp
  qed
qed

lemma g_comma_simps:
  "g_comma CHR '','' w d = []" "g_comma c w CHR '','' = []"
  "c \<noteq> CHR '','' \<Longrightarrow> d \<noteq> CHR '','' \<Longrightarrow> g_comma c w d = w"
  by (simp_all add: g_comma_def)

lemma comma_render:
  "wft ts \<Longrightarrow> closed ts \<Longrightarrow> re_sub m_comma '','' (render ts) = render (gm g_comma ts)"
proof (induction ts rule: tok_induct)
  case Nil
  show ?case by simp
next
  case (One c w)
  then have w: "w = []" by (simp add: closed_def)
  show ?case
  proof (cases "c = CHR '',''")
    case True
    have "m_comma '','' = Some (Suc 0)" by (simp add: m_comma_def isspace_def)
    then show ?thesis unfolding w True by simp
  next
    case False
    with One have "m_comma [c] = None" by (simp add: m_comma_other)
    then show ?thesis unfolding w by simp
  qed
next
  case (Two c w d v ts)
  let ?R = "render ((d, v) # ts)"
  have hR: "headok ?R" using Two.prems by simp
  have hT: "headok (render ts)" using Two.prems by (simp add: headok_render)
  have aw: "allspace w" and av: "allspace v" and nc: "\<not> isspace c" using Two.prems by simp_all
  have IH: "re_sub m_comma '','' ?R = render (gm g_comma ((d, v) # ts))"
    using Two by (simp add: closed_Cons)
  have goal: "render (gm g_comma ((c, w) # (d, v) # ts))
      = c # g_comma c w d @ render (gm g_comma ((d, v) # ts))"
    by simp
  show ?case
  proof (cases "c = CHR '',''")
    case True
    have "re_sub m_comma '','' ([] @ CHR '','' # w @ ?R) = CHR '','' # re_sub m_comma '','' ?R"
      by (rule comma_run_comma[OF _ aw hR]) simp
    then have "re_sub m_comma '','' (render ((c, w) # (d, v) # ts)) = CHR '','' # re_sub m_comma '','' ?R"
      unfolding True by (simp del: re_sub.simps)
    then show ?thesis unfolding goal IH unfolding True g_comma_simps by (simp del: re_sub.simps)
  next
    case False
    have 1: "re_sub m_comma '','' (render ((c, w) # (d, v) # ts)) = c # re_sub m_comma '','' (w @ ?R)"
      using m_comma_other[OF nc False] by simp
    show ?thesis
    proof (cases "d = CHR '',''")
      case True
      have "re_sub m_comma '','' (w @ CHR '','' # v @ render ts) = CHR '','' # re_sub m_comma '','' (render ts)"
        by (rule comma_run_comma[OF aw av hT])
      moreover have "re_sub m_comma '','' ([] @ CHR '','' # v @ render ts) = CHR '','' # re_sub m_comma '','' (render ts)"
        by (rule comma_run_comma[OF _ av hT]) simp
      ultimately have "re_sub m_comma '','' (w @ ?R) = re_sub m_comma '','' ?R"
        unfolding True by (simp del: re_sub.simps)
      then show ?thesis unfolding goal 1 IH unfolding True g_comma_simps by (simp del: re_sub.simps)
    next
      case dn: False
      have "re_sub m_comma '','' (w @ ?R) = w @ re_sub m_comma '','' ?R"
        by (rule comma_run_other[OF hR _ aw]) (simp add: dn)
      then show ?thesis unfolding goal 1 IH g_comma_simps(3)[OF False dn] by (simp del: re_sub.simps)
    qed
  qed
qed

subsection \<open>Composing gap functions\<close>

lemma gm_Cons:
  "gm g ((c, w) # ts) = (c, (case ts of [] \<Rightarrow> w | (d, v) # r \<Rightarrow> g c w d)) # gm g ts"
  by (cases ts) auto

lemma gm_comp: "gm g (gm f ts) = gm (\<lambda>c w d. g c (f c w d) d) ts"
proof (induction ts rule: tok_induct)
  case Nil
  show ?case by simp
next
  case (One c w)
  show ?case by simp
next
  case (Two c w d v ts)
  obtain v' where e: "gm f ((d, v) # ts) = (d, v') # gm f ts"
    using gm_Cons[of f d v ts] by blast
  have "gm g (gm f ((c, w) # (d, v) # ts)) = (c, g c (f c w d) d) # gm g (gm f ((d, v) # ts))"
    unfolding gm.simps(3) e by simp
  then show ?case using Two.IH by simp
qed

lemma wft_gm:
  assumes "\<And>c w d. allspace w \<Longrightarrow> allspace (f c w d)"
  shows "wft ts \<Longrightarrow> wft (gm f ts)"
  by (induction ts rule: tok_induct) (simp_all add: assms)

lemma gm_Nil_iff: "(gm f ts = []) = (ts = [])"
  by (induction ts rule: tok_induct) simp_all

lemma last_gm: "ts \<noteq> [] \<Longrightarrow> last (gm f ts) = last ts"
  by (induction ts rule: tok_induct) (simp_all add: gm_Nil_iff)

lemma closed_gm: "closed (gm f ts) = closed ts"
  by (cases "ts = []") (simp_all add: closed_def last_gm gm_Nil_iff)

lemma space_is_space: "isspace CHR '' ''"
  by (simp add: isspace_def)

lemma allspace_g_ws2: "allspace w \<Longrightarrow> allspace (g_ws2 c w d)"
  by (simp add: g_ws2_def space_is_space)

lemma allspace_g_ins: "allspace w \<Longrightarrow> allspace (g_ins P Q c w d)"
  by (simp add: g_ins_def space_is_space)

lemma allspace_g_comma: "allspace w \<Longrightarrow> allspace (g_comma c w d)"
  by (simp add: g_comma_def)

lemma nonspace_punct:
  "\<not> isspace CHR ''<''" "\<not> isspace CHR ''>''" "\<not> isspace CHR ''&''" "\<not> isspace CHR '',''"
  "\<not> isspace CHR '')''"
  by (simp_all add: isspace_def)

subsection \<open>Stripped strings are token lists\<close>

lemma render_tokens: "render (tokens s) = s"
  by (induction s rule: tokens.induct) simp_all

lemma headok_dropWhile: "headok (dropWhile isspace s)"
  by (induction s) simp_all

lemma wft_tokens: "headok s \<Longrightarrow> wft (tokens s)"
proof (induction s rule: tokens.induct)
  case 1
  show ?case by simp
next
  case (2 c s)
  have "allspace (takeWhile isspace s)"
    by (induction s) simp_all
  with 2 headok_dropWhile[of s] show ?case by simp
qed

lemma closed_tokens: "s = [] \<or> \<not> isspace (last s) \<Longrightarrow> closed (tokens s)"
proof (induction s rule: tokens.induct)
  case 1
  show ?case by (simp add: closed_def)
next
  case (2 c s)
  show ?case
  proof (cases "dropWhile isspace s = []")
    case True
    then have a: "\<forall>x\<in>set s. isspace x" by (simp add: dropWhile_eq_Nil_conv)
    have "s = []"
    proof (rule ccontr)
      assume "s \<noteq> []"
      then have "last (c # s) \<in> set s" by simp
      with a 2 show False by auto
    qed
    then show ?thesis by (simp add: closed_def)
  next
    case False
    then have "s \<noteq> []" by auto
    have "s = takeWhile isspace s @ dropWhile isspace s" by simp
    then have "last s = last (dropWhile isspace s)"
      using False by (metis last_appendR)
    with 2 False \<open>s \<noteq> []\<close> have "closed (tokens (dropWhile isspace s))" by simp
    moreover have "tokens (dropWhile isspace s) \<noteq> []"
      using False by (cases "dropWhile isspace s") simp_all
    ultimately show ?thesis by (simp add: closed_Cons)
  qed
qed

lemma last_render: "wft ts \<Longrightarrow> closed ts \<Longrightarrow> ts \<noteq> [] \<Longrightarrow> \<not> isspace (last (render ts))"
proof (induction ts rule: tok_induct)
  case Nil
  then show ?case by simp
next
  case (One c w)
  then show ?case by (simp add: closed_def)
next
  case (Two c w d v ts)
  then have "\<not> isspace (last (render ((d, v) # ts)))" by (simp add: closed_Cons)
  then show ?case by simp
qed

lemma dropWhile_headok: "headok s \<Longrightarrow> dropWhile isspace s = s"
  by (cases s) simp_all

lemma strip_render: "wft ts \<Longrightarrow> closed ts \<Longrightarrow> strip (render ts) = render ts"
proof (cases "ts = []")
  case True
  then show ?thesis by (simp add: strip_def)
next
  case False
  assume a: "wft ts" "closed ts"
  have 1: "dropWhile isspace (render ts) = render ts"
    by (rule dropWhile_headok[OF headok_render[OF a(1)]])
  have ne: "render ts \<noteq> []" using False by (cases ts) auto
  have "\<not> isspace (hd (rev (render ts)))"
    using last_render[OF a False] ne by (simp add: hd_rev)
  then have "headok (rev (render ts))"
    using ne by (cases "rev (render ts)") simp_all
  then have 2: "dropWhile isspace (rev (render ts)) = rev (render ts)"
    by (rule dropWhile_headok)
  show ?thesis unfolding strip_def 1 2 by simp
qed

lemma strip_headok: "headok (strip s)"
proof -
  let ?a = "dropWhile isspace s"
  let ?b = "dropWhile isspace (rev ?a)"
  have s: "strip s = rev ?b" by (simp add: strip_def)
  show ?thesis
  proof (cases "rev ?b")
    case Nil
    show ?thesis unfolding s Nil by simp
  next
    case (Cons x t)
    have "rev ?a = takeWhile isspace (rev ?a) @ ?b" by simp
    then have "rev (rev ?a) = rev ?b @ rev (takeWhile isspace (rev ?a))"
      by (metis rev_append)
    then have "?a = x # t @ rev (takeWhile isspace (rev ?a))"
      unfolding Cons by simp
    with headok_dropWhile[of s] have "\<not> isspace x" by (metis headok_simps(2))
    then show ?thesis unfolding s Cons by simp
  qed
qed

lemma strip_last: "strip s = [] \<or> \<not> isspace (last (strip s))"
proof -
  let ?b = "dropWhile isspace (rev (dropWhile isspace s))"
  have s: "strip s = rev ?b" by (simp add: strip_def)
  have h: "headok ?b" by (rule headok_dropWhile)
  show ?thesis
  proof (cases ?b)
    case Nil
    show ?thesis unfolding s Nil by simp
  next
    case (Cons x t)
    with h have "\<not> isspace x" by simp
    then show ?thesis unfolding s Cons by simp
  qed
qed

lemma strip_tokens:
  obtains ts where "wft ts" "closed ts" "render ts = strip s"
  using wft_tokens[OF strip_headok] closed_tokens[OF strip_last] render_tokens by blast

subsection \<open>The first seven steps on tokens\<close>

lemma norm7_render:
  assumes w: "wft ts" and c: "closed ts"
  shows "norm7 (render ts) = render (gm g_all ts)"
proof -
  let ?P1 = "\<lambda>c. c = CHR ''<''" and ?Q1 = "\<lambda>c. \<not> isspace c"
  let ?P2 = "\<lambda>c. \<not> isspace c" and ?Q2 = "\<lambda>c. c = CHR ''>''"
  let ?P3 = "\<lambda>c. \<not> isspace c \<and> c \<noteq> CHR ''&''" and ?Q3 = "\<lambda>c. c = CHR ''&''"
  let ?P4 = "\<lambda>c. c = CHR ''&''" and ?Q4 = "\<lambda>c. \<not> isspace c \<and> c \<noteq> CHR ''&''"
  define t1 where "t1 = gm g_ws2 ts"
  define t2 where "t2 = gm (g_ins ?P1 ?Q1) t1"
  define t3 where "t3 = gm (g_ins ?P2 ?Q2) t2"
  define t4 where "t4 = gm (g_ins ?P3 ?Q3) t3"
  define t5 where "t5 = gm (g_ins ?P4 ?Q4) t4"
  have w1: "wft t1" unfolding t1_def by (rule wft_gm[OF allspace_g_ws2 w])
  have w2: "wft t2" unfolding t2_def by (rule wft_gm[OF allspace_g_ins w1])
  have w3: "wft t3" unfolding t3_def by (rule wft_gm[OF allspace_g_ins w2])
  have w4: "wft t4" unfolding t4_def by (rule wft_gm[OF allspace_g_ins w3])
  have w5: "wft t5" unfolding t5_def by (rule wft_gm[OF allspace_g_ins w4])
  have c5: "closed t5" unfolding t5_def t4_def t3_def t2_def t1_def closed_gm by (rule c)
  have 0: "strip (render ts) = render ts" by (rule strip_render[OF w c])
  have 1: "re_sub m_ws2 '' '' (render ts) = render t1"
    unfolding t1_def by (rule collapse_render[OF w c])
  have 2: "insert_between ?P1 ?Q1 (render t1) = render t2"
    unfolding t2_def by (rule ins_render[OF _ _ w1]) (simp_all add: nonspace_punct)
  have 3: "insert_between ?P2 ?Q2 (render t2) = render t3"
    unfolding t3_def by (rule ins_render[OF _ _ w2]) (simp_all add: nonspace_punct)
  have 4: "insert_between ?P3 ?Q3 (render t3) = render t4"
    unfolding t4_def by (rule ins_render[OF _ _ w3]) (simp_all add: nonspace_punct)
  have 5: "insert_between ?P4 ?Q4 (render t4) = render t5"
    unfolding t5_def by (rule ins_render[OF _ _ w4]) (simp_all add: nonspace_punct)
  have 6: "re_sub m_comma '','' (render t5) = render (gm g_comma t5)"
    by (rule comma_render[OF w5 c5])
  have "norm7 (render ts) = render (gm g_comma t5)"
    unfolding norm7_def Let_def 0 1 2 3 4 5 6 ..
  also have "gm g_comma t5 = gm g_all ts"
    unfolding t5_def t4_def t3_def t2_def t1_def gm_comp g_all_def Let_def ..
  finally show ?thesis .
qed

lemma wft_g_all: "wft ts \<Longrightarrow> wft (gm g_all ts)"
  by (rule wft_gm) (simp add: g_all_def Let_def allspace_g_ws2 allspace_g_ins allspace_g_comma)

lemma g_all_idem: "g_all c (g_all c w d) d = g_all c w d"
  by (simp add: g_all_def Let_def g_ws2_def g_ins_def g_comma_def)

lemma gm_g_all_idem: "gm g_all (gm g_all ts) = gm g_all ts"
  unfolding gm_comp g_all_idem ..

lemma norm7_norm7:
  assumes w: "wft ts" and c: "closed ts"
  shows "norm7 (render (gm g_all ts)) = render (gm g_all ts)"
  using norm7_render[OF wft_g_all[OF w]] c by (simp add: closed_gm gm_g_all_idem)

lemma dnp_tighten: "doxy_normalize_yml_params s = tighten (norm7 s)"
  by (simp add: doxy_normalize_yml_params_def tighten_def norm7_def Let_def)

subsection \<open>The last step and idempotence\<close>

lemma m_amp_tail_longer: "m_amp_tail (x # q @ ''& ) >'') = None"
proof -
  have 1: "x # q @ ''& ) >'' \<noteq> ''& ) >'' @ [CHR 0x0A]"
  proof
    assume "x # q @ ''& ) >'' = ''& ) >'' @ [CHR 0x0A]"
    then have "last (x # q @ ''& ) >'') = last (''& ) >'' @ [CHR 0x0A])"
      by (rule arg_cong)
    then show False by simp
  qed
  have 2: "x # q @ ''& ) >'' \<noteq> ''& ) >''"
  proof
    assume "x # q @ ''& ) >'' = ''& ) >''"
    then have "length (x # q @ ''& ) >'') = length ''& ) >''"
      by (rule arg_cong)
    then show False by simp
  qed
  show ?thesis unfolding m_amp_tail_def using 1 2 by (simp only: if_False simp_thms)
qed

lemma tighten_tail: "re_sub m_amp_tail ''&)>'' (q @ ''& ) >'') = q @ ''&)>''"
proof (induction q)
  case Nil
  have "m_amp_tail ''& ) >'' = Some (Suc 4)" by (simp add: m_amp_tail_def)
  then show ?case by simp
next
  case (Cons x q)
  have "re_sub m_amp_tail ''&)>'' (x # q @ ''& ) >'') = x # re_sub m_amp_tail ''&)>'' (q @ ''& ) >'')"
    using m_amp_tail_longer[of x q] by simp
  then show ?case using Cons.IH by simp
qed

lemma endswith_split: "endswith p e \<Longrightarrow> p = take (length p - length e) p @ e"
  unfolding endswith_def by (metis append_take_drop_id)

lemma tighten_endswith: "tighten (q @ ''& ) >'') = q @ ''&)>''"
proof -
  have "endswith (q @ ''& ) >'') ''& ) >''" by (simp add: endswith_def)
  then show ?thesis by (simp only: tighten_def if_True tighten_tail)
qed

lemma tokens_render: "wft ts \<Longrightarrow> tokens (render ts) = ts"
proof (induction ts)
  case Nil
  show ?case by simp
next
  case (Cons t ts)
  obtain c w where t: "t = (c, w)" by (cases t)
  from Cons.prems t have a: "allspace w" and h: "headok (render ts)"
    by (simp_all add: headok_render)
  show ?case unfolding t
    using takeWhile_run[OF a h] dropWhile_run[OF a h] Cons t by simp
qed

lemma case_hd:
  "xs \<noteq> [] \<Longrightarrow> (case xs of [] \<Rightarrow> w | (d, v) # r \<Rightarrow> g c w d) = g c w (fst (hd xs))"
  by (cases xs) auto

lemma gm_append_cong:
  assumes "b \<noteq> []" "b' \<noteq> []" "fst (hd b) = fst (hd b')" "gm g b = gm g b'"
  shows "gm g (a @ b) = gm g (a @ b')"
proof (induction a)
  case Nil
  show ?case using assms(4) by simp
next
  case (Cons t a)
  obtain c w where t: "t = (c, w)" by (cases t)
  have ne: "a @ b \<noteq> []" "a @ b' \<noteq> []" using assms by simp_all
  have "fst (hd (a @ b)) = fst (hd (a @ b'))"
    using assms(1-3) by (cases a) simp_all
  then show ?case
    using Cons.IH unfolding t append_Cons gm_Cons case_hd[OF ne(1)] case_hd[OF ne(2)] by simp
qed

lemma g_all_tail:
  "gm g_all [(CHR ''&'', []), (CHR '')'', []), (CHR ''>'', [])]
   = gm g_all [(CHR ''&'', '' ''), (CHR '')'', '' ''), (CHR ''>'', [])]"
  by (simp add: g_all_def Let_def g_ws2_def g_ins_def g_comma_def nonspace_punct)

text \<open>
  Claim C5. Parameter normalisation is idempotent, including the case where the result
  of the first seven substitutions ends in ampersand, space, closing parenthesis, space,
  greater-than and is tightened.
\<close>

theorem doxy_normalize_yml_params_idempotent:
  "doxy_normalize_yml_params (doxy_normalize_yml_params s) = doxy_normalize_yml_params s"
proof -
  obtain ts where w: "wft ts" and c: "closed ts" and r: "render ts = strip s"
    by (rule strip_tokens)
  have "strip (strip s) = strip s" using strip_render[OF w c] r by simp
  then have "norm7 s = norm7 (render ts)" unfolding r norm7_def by simp
  then have p: "norm7 s = render (gm g_all ts)" using norm7_render[OF w c] by simp
  let ?t1 = "gm g_all ts"
  let ?p = "render ?t1"
  have w1: "wft ?t1" by (rule wft_g_all[OF w])
  have c1: "closed ?t1" using c by (simp add: closed_gm)
  have fx: "norm7 ?p = ?p" by (rule norm7_norm7[OF w c])
  show ?thesis
  proof (cases "endswith ?p ''& ) >''")
    case False
    then have t: "tighten ?p = ?p" by (simp add: tighten_def)
    have a: "doxy_normalize_yml_params s = ?p" unfolding dnp_tighten p by (rule t)
    have b: "doxy_normalize_yml_params ?p = ?p" unfolding dnp_tighten fx by (rule t)
    show ?thesis unfolding a by (rule b)
  next
    case True
    define q where "q = take (length ?p - length ''& ) >'') ?p"
    have pq: "?p = q @ ''& ) >''" unfolding q_def by (rule endswith_split[OF True])
    have hq: "headok q"
      using headok_render[OF w1] unfolding pq by (cases q) simp_all
    let ?tq = "tokens q"
    let ?b1 = "[(CHR ''&'', '' ''), (CHR '')'', '' ''), (CHR ''>'', [])]"
    let ?b2 = "[(CHR ''&'', []), (CHR '')'', []), (CHR ''>'', [])]"
    have wq: "wft ?tq" by (rule wft_tokens[OF hq])
    have wb1: "wft (?tq @ ?b1)" using wq by (simp add: wft_append nonspace_punct space_is_space)
    have wb2: "wft (?tq @ ?b2)" using wq by (simp add: wft_append nonspace_punct)
    have cb2: "closed (?tq @ ?b2)" by (simp add: closed_def)
    have r1: "render (?tq @ ?b1) = ?p" unfolding pq by (simp add: render_append render_tokens)
    have r2: "render (?tq @ ?b2) = q @ ''&)>''" by (simp add: render_append render_tokens)
    have "tokens (render (?tq @ ?b1)) = tokens ?p" unfolding r1 ..
    then have t1: "?tq @ ?b1 = ?t1" unfolding tokens_render[OF wb1] tokens_render[OF w1] .
    have "gm g_all (?tq @ ?b2) = gm g_all (?tq @ ?b1)"
      by (rule gm_append_cong[OF _ _ _ g_all_tail]) simp_all
    also have "\<dots> = ?t1" unfolding t1 by (rule gm_g_all_idem)
    finally have g2: "gm g_all (?tq @ ?b2) = ?t1" .
    have n2: "norm7 (q @ ''&)>'') = ?p"
      using norm7_render[OF wb2 cb2] unfolding r2 g2 .
    have t: "tighten ?p = q @ ''&)>''"
      using tighten_endswith[of q] unfolding pq[symmetric] .
    have a: "doxy_normalize_yml_params s = q @ ''&)>''" unfolding dnp_tighten p by (rule t)
    have b: "doxy_normalize_yml_params (q @ ''&)>'') = q @ ''&)>''"
      unfolding dnp_tighten n2 by (rule t)
    show ?thesis unfolding a by (rule b)
  qed
qed

theorem doxy_normalize_yml_params_idempotent_witness:
  "doxy_normalize_yml_params ''std::function<void(bool&)>'' = ''std::function< void(bool &)>''
   \<and> doxy_normalize_yml_params ''std::function< void(bool &)>'' = ''std::function< void(bool &)>''"
proof -
  have e: "doxy_normalize_yml_params ''std::function<void(bool&)>'' = ''std::function< void(bool &)>''"
    by code_simp
  show ?thesis
    using doxy_normalize_yml_params_idempotent [of "''std::function<void(bool&)>''"]
    unfolding e by simp
qed

section \<open>Writing output and cleaning up\<close>

lemma map_of_disk_write: "map_of (disk_write k v d) = (map_of d)(k \<mapsto> v)"
proof
  fix x
  have "map_of (filter (\<lambda>(k', _). k' \<noteq> k) d) x = (if x = k then None else map_of d x)"
    by (induction d) auto
  then show "map_of (disk_write k v d) x = ((map_of d)(k \<mapsto> v)) x"
    by (simp add: disk_write_def)
qed

lemma map_of_disk_remove: "map_of (disk_remove k d) = (map_of d)(k := None)"
proof
  fix x
  show "map_of (disk_remove k d) x = ((map_of d)(k := None)) x"
    unfolding disk_remove_def by (induction d) auto
qed

lemma universal_newlines_noop: "CHR 0x0D \<notin> set t \<Longrightarrow> universal_newlines t = t"
  by (induction t rule: universal_newlines.induct) auto

text \<open>
  Claim C1, as the source has it. For every file name and contents, on a disk where the
  name is not a directory, \<open>__write_file_if_changed\<close> returns, and what it compares the
  contents with is the text of the file as read in text mode, with universal newlines.
  When the two are equal, the disk and \<open>__REWRITES_ACTUAL\<close> are unchanged; when they
  differ or the file does not exist, the file holds exactly the given contents afterwards,
  every other path is untouched, and \<open>__REWRITES_ACTUAL\<close> is increased by one. When the
  file as stored holds no carriage return, this is the claim as it was stated: the disk
  and the count are unchanged when the file holds exactly the contents, and the contents
  are written and counted otherwise.
\<close>

theorem write_file_if_changed_effect:
  assumes "map_of (disk_of s) fname \<noteq> Some Dir"
  shows "\<exists>s'. write_file_if_changed fname contents s = (Return (), s')
     \<and> (if \<exists>t. map_of (disk_of s) fname = Some (File t) \<and> universal_newlines t = contents
        then disk_of s' = disk_of s \<and> REWRITES_ACTUAL s' = REWRITES_ACTUAL s
        else map_of (disk_of s') = (map_of (disk_of s))(fname \<mapsto> File contents)
             \<and> REWRITES_ACTUAL s' = REWRITES_ACTUAL s + 1)
     \<and> ((\<forall>t. map_of (disk_of s) fname = Some (File t) \<longrightarrow> CHR 0x0D \<notin> set t) \<longrightarrow>
          (if map_of (disk_of s) fname = Some (File contents)
           then disk_of s' = disk_of s \<and> REWRITES_ACTUAL s' = REWRITES_ACTUAL s
           else map_of (disk_of s') = (map_of (disk_of s))(fname \<mapsto> File contents)
                \<and> REWRITES_ACTUAL s' = REWRITES_ACTUAL s + 1))"
proof (cases "map_of (disk_of s) fname")
  case None
  then show ?thesis
    by (simp add: write_file_if_changed_def Let_def info_def map_of_disk_write)
next
  case (Some e)
  with assms obtain c where e: "e = File c" by (cases e) auto
  have n: "CHR 0x0D \<notin> set c \<Longrightarrow> universal_newlines c = c" by (rule universal_newlines_noop)
  show ?thesis
  proof (cases "universal_newlines c = contents")
    case True
    with Some e n show ?thesis by (auto simp: write_file_if_changed_def Let_def)
  next
    case False
    with Some e n show ?thesis
      by (auto simp: write_file_if_changed_def Let_def info_def map_of_disk_write)
  qed
qed

theorem write_file_if_changed_effect_witness:
  "map_of (disk_of (initial_state [(''source/_generated/a.rst'', File ''old'')])) ''source/_generated/a.rst'' \<noteq> Some Dir
   \<and> map_of (disk_of (initial_state [(''source/_generated/a.rst'', File ''old'')]))
         ''source/_generated/a.rst'' = Some (File ''old'')
   \<and> CHR 0x0D \<notin> set ''old''
   \<and> (\<exists>s'. write_file_if_changed ''source/_generated/a.rst'' ''new''
               (initial_state [(''source/_generated/a.rst'', File ''old'')]) = (Return (), s')
          \<and> map_of (disk_of s') ''source/_generated/a.rst'' = Some (File ''new'')
          \<and> REWRITES_ACTUAL s' = 1)"
proof -
  let ?s = "initial_state [(''source/_generated/a.rst'', File ''old'')]"
  have h: "map_of (disk_of ?s) ''source/_generated/a.rst'' \<noteq> Some Dir"
    by (simp add: initial_state_def)
  have c: "\<forall>t. map_of (disk_of ?s) ''source/_generated/a.rst'' = Some (File t) \<longrightarrow> CHR 0x0D \<notin> set t"
    by (simp add: initial_state_def)
  from write_file_if_changed_effect [OF h, of "''new''"] h c show ?thesis
    by (auto simp: initial_state_def)
qed

text \<open>
  The claim as stated fails on a file that holds a carriage return. Contents identical to
  what the file stores are written again and counted, because the text read back has a
  newline where the file has the carriage return; and contents that differ from what the
  file stores in that place only are not written.
\<close>

theorem write_file_if_changed_carriage_return_counterexample:
  "write_file_if_changed ''a.rst'' [CHR ''x'', CHR 0x0D]
       (initial_state [(''a.rst'', File [CHR ''x'', CHR 0x0D])])
     = (Return (),
        (initial_state [(''a.rst'', File [CHR ''x'', CHR 0x0D])])
          \<lparr>REWRITES_ATTEMPTED := 1, REWRITES_ACTUAL := 1, RST_FILES_WRITTEN := {''a.rst''},
           stdout := [''Rewriting docs/a.rst ...'']\<rparr>)
   \<and> write_file_if_changed ''a.rst'' [CHR ''x'', CHR 0x0A]
       (initial_state [(''a.rst'', File [CHR ''x'', CHR 0x0D, CHR 0x0A])])
     = (Return (),
        (initial_state [(''a.rst'', File [CHR ''x'', CHR 0x0D, CHR 0x0A])])
          \<lparr>REWRITES_ATTEMPTED := 1, RST_FILES_WRITTEN := {''a.rst''}\<rparr>)"
  by (simp add: write_file_if_changed_def initial_state_def info_def disk_write_def Let_def)

subsection \<open>Clean-up\<close>

lemma written_write_file_if_changed:
  "write_file_if_changed fname contents s = (r, s') \<Longrightarrow>
     RST_FILES_WRITTEN s' = insert fname (RST_FILES_WRITTEN s)"
  by (auto simp: write_file_if_changed_def Let_def info_def split: option.splits entry.splits if_splits)

lemma written_write_all:
  "write_all ws s = (Return (), s') \<Longrightarrow> RST_FILES_WRITTEN s' = RST_FILES_WRITTEN s \<union> fst ` set ws"
proof (induction ws arbitrary: s)
  case Nil
  then show ?case by simp
next
  case (Cons w ws)
  obtain fname contents where w: "w = (fname, contents)" by (cases w)
  obtain r s1 where s1: "write_file_if_changed fname contents s = (r, s1)" by fastforce
  with Cons.prems w have r: "r = Return ()" and rest: "write_all ws s1 = (Return (), s')"
    by (auto split: result.splits)
  from written_write_file_if_changed[OF s1] Cons.IH[OF rest] show ?case
    unfolding w by auto
qed

lemma os_remove_Return:
  "os_remove p s = (Return (), s') \<Longrightarrow>
     map_of (disk_of s') = (map_of (disk_of s))(p := None) \<and> RST_FILES_WRITTEN s' = RST_FILES_WRITTEN s"
  by (auto simp: os_remove_def map_of_disk_remove split: option.splits entry.splits)

lemma clean_up_loop_effect:
  "clean_up_loop ns s = (Return (), s') \<Longrightarrow>
     RST_FILES_WRITTEN s' = RST_FILES_WRITTEN s
     \<and> (\<forall>p. map_of (disk_of s') p =
           (if p \<in> path_join ''source/_generated'' ` set ns \<and> p \<notin> RST_FILES_WRITTEN s then None
            else map_of (disk_of s) p))"
proof (induction ns arbitrary: s)
  case Nil
  then show ?case by simp
next
  case (Cons n ns)
  let ?f = "path_join ''source/_generated'' n"
  show ?case
  proof (cases "?f \<in> RST_FILES_WRITTEN s")
    case True
    with Cons.prems have "clean_up_loop ns s = (Return (), s')" by simp
    from Cons.IH[OF this] True show ?thesis by auto
  next
    case False
    let ?s0 = "info2 ?f ''deleting!!!'' s"
    obtain r s1 where s1: "os_remove ?f ?s0 = (r, s1)" by fastforce
    with Cons.prems False have r: "r = Return ()" and rest: "clean_up_loop ns s1 = (Return (), s')"
      by (auto simp: Let_def split: result.splits)
    have a: "map_of (disk_of s1) = (map_of (disk_of s))(?f := None)"
      and b: "RST_FILES_WRITTEN s1 = RST_FILES_WRITTEN s"
      using os_remove_Return[OF s1[unfolded r]] by (simp_all add: info2_def)
    from Cons.IH[OF rest] False show ?thesis unfolding a b by auto
  qed
qed

lemma startswith_append_iff: "startswith k (a @ b) \<Longrightarrow> k = a @ b @ drop (length a + length b) k"
  unfolding startswith_def by (metis append.assoc append_take_drop_id length_append)

lemma in_listdir:
  "(n \<in> set (listdir d dk)) = (n \<noteq> [] \<and> CHR ''/'' \<notin> set n \<and> map_of dk (d @ ''/'' @ n) \<noteq> None)"
proof
  assume "n \<in> set (listdir d dk)"
  then obtain k e where ke: "(k, e) \<in> set dk" and s: "startswith k (d @ ''/'')"
    and n: "n = drop (length d + 1) k" "n \<noteq> []" "CHR ''/'' \<notin> set n"
    by (auto simp: listdir_def Let_def split: if_splits)
  from startswith_append_iff[OF s] n(1) have "k = d @ ''/'' @ n" by simp
  with ke have "map_of dk (d @ ''/'' @ n) \<noteq> None"
    by (metis map_of_eq_None_iff fst_conv image_eqI)
  with n show "n \<noteq> [] \<and> CHR ''/'' \<notin> set n \<and> map_of dk (d @ ''/'' @ n) \<noteq> None" by simp
next
  assume a: "n \<noteq> [] \<and> CHR ''/'' \<notin> set n \<and> map_of dk (d @ ''/'' @ n) \<noteq> None"
  then obtain e where "map_of dk (d @ ''/'' @ n) = Some e" by auto
  then have "(d @ ''/'' @ n, e) \<in> set dk" by (rule map_of_SomeD)
  moreover have "startswith (d @ ''/'' @ n) (d @ ''/'')" by (simp add: startswith_def)
  ultimately show "n \<in> set (listdir d dk)"
    using a by (force simp: listdir_def Let_def)
qed

text \<open>
  Claim C2. In a run that starts with \<open>__RST_FILES_WRITTEN\<close> empty and returns, the
  recorded names are exactly the names given to \<open>__write_file_if_changed\<close> in this run
  (whether or not the call wrote), \<open>__clean_up\<close> removes every path of the output
  directory that is not recorded, and every name left in the output directory is recorded.
\<close>

theorem run_leaves_no_orphan:
  assumes "RST_FILES_WRITTEN s = {}" and "run ws s = (Return (), s')"
  shows "\<exists>s1. write_all ws s = (Return (), s1) \<and> clean_up s1 = (Return (), s')
     \<and> RST_FILES_WRITTEN s' = fst ` set ws
     \<and> (\<forall>n\<in>set (listdir ''source/_generated'' (disk_of s1)).
           path_join ''source/_generated'' n \<notin> RST_FILES_WRITTEN s1
           \<longrightarrow> map_of (disk_of s') (path_join ''source/_generated'' n) = None)
     \<and> (\<forall>n\<in>set (listdir ''source/_generated'' (disk_of s')).
           path_join ''source/_generated'' n \<in> RST_FILES_WRITTEN s')"
proof -
  obtain r s1 where w: "write_all ws s = (r, s1)" by fastforce
  with assms(2) have r: "r = Return ()" and c: "clean_up s1 = (Return (), s')"
    by (auto simp: run_def split: result.splits)
  note w = w[unfolded r]
  have W1: "RST_FILES_WRITTEN s1 = fst ` set ws"
    using written_write_all[OF w] assms(1) by simp
  from c have l: "clean_up_loop (listdir ''source/_generated'' (disk_of s1)) s1 = (Return (), s')"
    by (simp add: clean_up_def)
  note e = clean_up_loop_effect[OF l]
  have eW: "RST_FILES_WRITTEN s' = RST_FILES_WRITTEN s1" using e by (rule conjunct1)
  have eD: "map_of (disk_of s') p =
      (if p \<in> path_join ''source/_generated'' ` set (listdir ''source/_generated'' (disk_of s1))
          \<and> p \<notin> RST_FILES_WRITTEN s1 then None
       else map_of (disk_of s1) p)" for p
    using e by (simp only:)
  have W': "RST_FILES_WRITTEN s' = fst ` set ws" unfolding eW W1 ..
  have del: "\<forall>n\<in>set (listdir ''source/_generated'' (disk_of s1)).
           path_join ''source/_generated'' n \<notin> RST_FILES_WRITTEN s1
           \<longrightarrow> map_of (disk_of s') (path_join ''source/_generated'' n) = None"
  proof (intro ballI impI)
    fix n assume "n \<in> set (listdir ''source/_generated'' (disk_of s1))"
      and "path_join ''source/_generated'' n \<notin> RST_FILES_WRITTEN s1"
    then show "map_of (disk_of s') (path_join ''source/_generated'' n) = None"
      unfolding eD by simp
  qed
  have left: "\<forall>n\<in>set (listdir ''source/_generated'' (disk_of s')).
           path_join ''source/_generated'' n \<in> RST_FILES_WRITTEN s'"
  proof
    fix n assume n: "n \<in> set (listdir ''source/_generated'' (disk_of s'))"
    let ?p = "path_join ''source/_generated'' n"
    from n have p: "n \<noteq> []" "CHR ''/'' \<notin> set n" "map_of (disk_of s') ?p \<noteq> None"
      unfolding in_listdir path_join_def by simp_all
    from p(3) have 1: "map_of (disk_of s1) ?p \<noteq> None"
      unfolding eD by (simp split: if_splits)
    with p have 2: "n \<in> set (listdir ''source/_generated'' (disk_of s1))"
      unfolding in_listdir path_join_def by simp
    show "?p \<in> RST_FILES_WRITTEN s'"
    proof (rule ccontr)
      assume "?p \<notin> RST_FILES_WRITTEN s'"
      then have "?p \<notin> RST_FILES_WRITTEN s1" unfolding eW .
      with 2 have "map_of (disk_of s') ?p = None" unfolding eD by simp
      with p(3) show False by simp
    qed
  qed
  from w c W' del left show ?thesis by (intro exI[of _ s1] conjI)
qed

theorem run_leaves_no_orphan_witness:
  "RST_FILES_WRITTEN (initial_state [(''source/_generated/old.rst'', File ''x''),
                                     (''source/_generated/a.rst'', File ''y'')]) = {}
   \<and> (\<exists>s'. run [(''source/_generated/a.rst'', ''y'')]
               (initial_state [(''source/_generated/old.rst'', File ''x''),
                               (''source/_generated/a.rst'', File ''y'')]) = (Return (), s')
          \<and> disk_of s' = [(''source/_generated/a.rst'', File ''y'')]
          \<and> RST_FILES_WRITTEN s' = {''source/_generated/a.rst''})"
proof -
  let ?s = "initial_state [(''source/_generated/old.rst'', File ''x''),
                           (''source/_generated/a.rst'', File ''y'')]"
  let ?s' = "\<lparr>disk_of = [(''source/_generated/a.rst'', File ''y'')], REWRITES_ATTEMPTED = 1,
       REWRITES_ACTUAL = 0, WARNINGS = 0, RST_FILES_WRITTEN = {''source/_generated/a.rst''},
       stdout = [''deleting!!!: source/_generated/old.rst''], stderr = []\<rparr>"
  have h1: "RST_FILES_WRITTEN ?s = {}" by (simp add: initial_state_def)
  have h2: "run [(''source/_generated/a.rst'', ''y'')] ?s = (Return (), ?s')"
    by (simp add: run_def initial_state_def write_file_if_changed_def clean_up_def listdir_def
        startswith_def path_join_def info2_def os_remove_def disk_remove_def Let_def)
  from run_leaves_no_orphan [OF h1 h2] have "RST_FILES_WRITTEN ?s' = {''source/_generated/a.rst''}"
    by simp
  with h1 h2 show ?thesis by simp
qed

text \<open>A run on a disk without directories among its entries does return.\<close>


lemma no_dirs_map_of: "no_dirs d \<Longrightarrow> map_of d k \<noteq> Some Dir"
proof
  assume "no_dirs d" "map_of d k = Some Dir"
  then have "(k, Dir) \<in> set d" by (simp add: map_of_SomeD)
  with \<open>no_dirs d\<close> show False by (auto simp: no_dirs_def list_all_iff)
qed

lemma no_dirs_write: "no_dirs d \<Longrightarrow> no_dirs (disk_write k (File c) d)"
  by (auto simp: no_dirs_def disk_write_def list_all_iff)

lemma no_dirs_remove: "no_dirs d \<Longrightarrow> no_dirs (disk_remove k d)"
  by (auto simp: no_dirs_def disk_remove_def list_all_iff)

lemma write_file_if_changed_returns:
  assumes "no_dirs (disk_of s)"
  shows "\<exists>s'. write_file_if_changed fname contents s = (Return (), s') \<and> no_dirs (disk_of s')"
proof (cases "map_of (disk_of s) fname")
  case None
  with assms show ?thesis
    by (simp add: write_file_if_changed_def Let_def info_def no_dirs_write)
next
  case (Some e)
  with no_dirs_map_of[OF assms, of fname] obtain c where "e = File c" by (cases e) auto
  with Some assms show ?thesis
    by (simp add: write_file_if_changed_def Let_def info_def no_dirs_write)
qed

lemma write_all_returns:
  "no_dirs (disk_of s) \<Longrightarrow> \<exists>s'. write_all ws s = (Return (), s') \<and> no_dirs (disk_of s')"
proof (induction ws arbitrary: s)
  case Nil
  then show ?case by simp
next
  case (Cons w ws)
  obtain fname contents where w: "w = (fname, contents)" by (cases w)
  from write_file_if_changed_returns[OF Cons.prems]
  obtain s1 where 1: "write_file_if_changed fname contents s = (Return (), s1)"
    and 2: "no_dirs (disk_of s1)" by blast
  from Cons.IH[OF 2] 1 show ?case unfolding w by simp
qed

lemma clean_up_loop_returns:
  assumes "no_dirs (disk_of s)" "distinct ns"
    and "\<forall>n\<in>set ns. map_of (disk_of s) (path_join ''source/_generated'' n) \<noteq> None"
  shows "\<exists>s'. clean_up_loop ns s = (Return (), s')"
  using assms
proof (induction ns arbitrary: s)
  case Nil
  show ?case by simp
next
  case (Cons n ns)
  let ?f = "path_join ''source/_generated'' n"
  show ?case
  proof (cases "?f \<in> RST_FILES_WRITTEN s")
    case True
    with Cons show ?thesis by simp
  next
    case False
    let ?s0 = "info2 ?f ''deleting!!!'' s"
    from Cons.prems obtain e where e: "map_of (disk_of s) ?f = Some e" by auto
    with no_dirs_map_of[OF Cons.prems(1), of ?f] obtain c where c: "e = File c" by (cases e) auto
    let ?s1 = "?s0\<lparr>disk_of := disk_remove ?f (disk_of ?s0)\<rparr>"
    have r: "os_remove ?f ?s0 = (Return (), ?s1)"
      using e c by (simp add: os_remove_def info2_def)
    have 1: "no_dirs (disk_of ?s1)" using Cons.prems(1) by (simp add: info2_def no_dirs_remove)
    have 2: "distinct ns" using Cons.prems(2) by simp
    have 3: "\<forall>m\<in>set ns. map_of (disk_of ?s1) (path_join ''source/_generated'' m) \<noteq> None"
    proof
      fix m assume m: "m \<in> set ns"
      with Cons.prems(2) have "m \<noteq> n" by auto
      then have "path_join ''source/_generated'' m \<noteq> ?f" by (simp add: path_join_def)
      with Cons.prems(3) m show "map_of (disk_of ?s1) (path_join ''source/_generated'' m) \<noteq> None"
        by (simp add: info2_def map_of_disk_remove)
    qed
    from Cons.IH[OF 1 2 3] obtain s' where "clean_up_loop ns ?s1 = (Return (), s')" by blast
    with False r show ?thesis by (simp add: Let_def)
  qed
qed

lemma run_returns:
  assumes "no_dirs (disk_of s)"
  shows "\<exists>s'. run ws s = (Return (), s')"
proof -
  from write_all_returns[OF assms] obtain s1 where 1: "write_all ws s = (Return (), s1)"
    and 2: "no_dirs (disk_of s1)" by blast
  have "distinct (listdir ''source/_generated'' (disk_of s1))" by (simp add: listdir_def)
  moreover have "\<forall>n\<in>set (listdir ''source/_generated'' (disk_of s1)).
      map_of (disk_of s1) (path_join ''source/_generated'' n) \<noteq> None"
    by (simp add: in_listdir path_join_def)
  ultimately obtain s' where "clean_up s1 = (Return (), s')"
    unfolding clean_up_def using clean_up_loop_returns[OF 2] by blast
  with 1 show ?thesis by (simp add: run_def)
qed

section \<open>The context stack of the renderer\<close>

lemma set_get_ctx [simp]: "set_ctx r (get_ctx r st) st = st"
  by (cases r) (simp_all add: set_ctx_def get_ctx_def)

lemma get_set_ctx [simp]: "get_ctx r (set_ctx r c st) = c"
  by (cases r) (simp_all add: set_ctx_def get_ctx_def)

lemma set_set_ctx [simp]: "set_ctx r c (set_ctx r d st) = set_ctx r c st"
  by (cases r) (simp_all add: set_ctx_def)

lemma append_to_Return:
  "append_to pre rs = (Return s, st') \<Longrightarrow> \<exists>t. rs = (Return t, st') \<and> s = pre @ t"
  by (auto simp: append_to_def split: prod.splits result.splits)

lemma lift_pure_Return: "lift_pure pre r st = (Return s, st') \<Longrightarrow> st' = st"
  by (auto simp: lift_pure_def split: result.splits)

lemma para_post_Return: "para_post r rs = (Return s, st') \<Longrightarrow> \<exists>t. rs = (Return t, st')"
  by (auto simp: para_post_def Let_def split: prod.splits result.splits if_splits)


lemma convert_item_cases:
  assumes "convert_item P (Tag nm a cs) r res st = (Return s, st')"
  shows "st' = st
    \<or> (nm \<noteq> ''enum'' \<and> (\<exists>r' t. convert_to_rst P (Tag nm a cs) r' st = (Return t, st')))
    \<or> (\<exists>k. plist_items P k (Tag nm a cs) (find_all ''parameteritem'' (Tag nm a cs)) r res st = (Return s, st'))"
  using assms
  apply (simp only: convert_item.simps Let_def)
  apply (simp split: if_splits option.splits del: find_all.simps convert_to_rst.simps)
  apply (auto dest!: para_post_Return append_to_Return lift_pure_Return simp del: find_all.simps convert_to_rst.simps)
  done

lemma find_tag_name: "find_tag nm x = Some y \<Longrightarrow> tag_name y = Some nm"
proof -
  have "\<forall>y\<in>set (find_all nm x). tag_name y = Some nm"
    by (induction x) (auto split: if_splits)
  moreover assume "find_tag nm x = Some y"
  then have "y \<in> set (find_all nm x)"
    by (auto simp: find_tag_def split: list.splits)
  ultimately show ?thesis by blast
qed

lemma found_good: "find_tag nm z = Some t \<Longrightarrow> nm \<noteq> ''enum'' \<Longrightarrow> good t"
  using find_tag_name[of nm z t] by (simp add: good_def)


lemma balanced_uptoD:
  "balanced_upto n \<Longrightarrow> weight x \<le> n \<Longrightarrow> good x \<Longrightarrow>
     convert_to_rst P x r st = (Return s, st') \<Longrightarrow> st' = st"
  unfolding balanced_upto_def by blast

lemma found_balanced:
  assumes "balanced_upto n" "find_tag nm z = Some t" "nm \<noteq> ''enum''" "weight z \<le> Suc n"
    and "append_to pre (convert_to_rst P t r st) = (Return s, st')"
  shows "st' = st"
proof -
  from append_to_Return[OF assms(5)] obtain u where c: "convert_to_rst P t r st = (Return u, st')"
    by blast
  from weight_find_tag[OF assms(2)] assms(4) have w: "weight t \<le> n" by simp
  from balanced_uptoD[OF assms(1) w found_good[OF assms(2,3)] c] show ?thesis .
qed

lemma plist_items_balanced:
  assumes b: "balanced_upto n" and x: "weight x \<le> Suc n"
  shows "\<forall>y\<in>set ys. weight y \<le> Suc n \<Longrightarrow>
     plist_items P k x ys r res st = (Return s, st') \<Longrightarrow> st' = st"
proof (induction ys arbitrary: res st)
  case Nil
  then show ?case by simp
next
  case (Cons y ys)
  have y: "weight y \<le> Suc n" using Cons.prems(1) by simp
  have IH: "plist_items P k x ys r res0 st0 = (Return s, st') \<Longrightarrow> st' = st0" for res0 st0
    using Cons.IH Cons.prems(1) by simp
  show ?case
  proof (cases k)
    case TemplateParam
    from Cons.prems(2) obtain pn pd res1 st1 pre where
      f: "find_tag ''parameterdescription'' y = Some pd"
      and a: "append_to pre (convert_to_rst P pd r st) = (Return res1, st1)"
      and rest: "plist_items P k x ys r res1 st1 = (Return s, st')"
      unfolding TemplateParam plist_items.simps Let_def
      by (simp split: option.splits prod.splits result.splits)
    from found_balanced[OF b f _ y a] have "st1 = st" by simp
    with IH[OF rest] show ?thesis by simp
  next
    case Param
    from Cons.prems(2) obtain pn pd res1 st1 pre where
      f: "find_tag ''parameterdescription'' x = Some pd"
      and a: "append_to pre (convert_to_rst P pd r st) = (Return res1, st1)"
      and rest: "plist_items P k x ys r res1 st1 = (Return s, st')"
      unfolding Param plist_items.simps Let_def
      by (simp split: option.splits prod.splits result.splits)
    from found_balanced[OF b f _ x a] have "st1 = st" by simp
    with IH[OF rest] show ?thesis by simp
  next
    case Exception
    from Cons.prems(2) obtain pn pd res1 st1 res2 st2 pre where
      f1: "find_tag ''parametername'' y = Some pn"
      and a1: "append_to pre (convert_to_rst P pn r st) = (Return res1, st1)"
      and f2: "find_tag ''parameterdescription'' y = Some pd"
      and a2: "append_to res1 (convert_to_rst P pd r st1) = (Return res2, st2)"
      and rest: "plist_items P k x ys r res2 st2 = (Return s, st')"
      unfolding Exception plist_items.simps Let_def
      by (simp split: option.splits prod.splits result.splits)
    from found_balanced[OF b f1 _ y a1] have "st1 = st" by simp
    moreover from found_balanced[OF b f2 _ y a2] have "st2 = st1" by simp
    ultimately show ?thesis using IH[OF rest] by simp
  qed
qed

lemma convert_items_balanced:
  "(\<And>x res st s st'. x \<in> set xs \<Longrightarrow> convert_item P x r res st = (Return s, st') \<Longrightarrow> st' = st)
   \<Longrightarrow> convert_items P xs r res st = (Return s, st') \<Longrightarrow> st' = st"
proof (induction xs arbitrary: res st)
  case Nil
  then show ?case by simp
next
  case (Cons x xs)
  from Cons.prems(2) obtain res1 st1 where 1: "convert_item P x r res st = (Return res1, st1)"
    and 2: "convert_items P xs r res1 st1 = (Return s, st')"
    by (auto split: prod.splits result.splits)
  have "st1 = st" by (rule Cons.prems(1)[OF _ 1]) simp
  moreover have "st' = st1"
  proof (rule Cons.IH[OF _ 2])
    fix y res0 st0 s0 st0'
    assume "y \<in> set xs" "convert_item P y r res0 st0 = (Return s0, st0')"
    then show "st0' = st0" using Cons.prems(1)[of y res0 st0 s0 st0'] by simp
  qed
  ultimately show ?case by simp
qed

lemma convert_item_balanced:
  assumes b: "balanced_upto n" and w: "weight x \<le> n"
    and c: "convert_item P x r res st = (Return s, st')"
  shows "st' = st"
proof (cases x)
  case (Text t)
  with c show ?thesis by simp
next
  case (Tag nm a cs)
  from convert_item_cases[OF c[unfolded Tag]]
  consider "st' = st"
    | r' t where "nm \<noteq> ''enum''" "convert_to_rst P x r' st = (Return t, st')"
    | k where "plist_items P k x (find_all ''parameteritem'' x) r res st = (Return s, st')"
    unfolding Tag by blast
  then show ?thesis
  proof cases
    case 1
    then show ?thesis .
  next
    case 2
    from 2(1) have "good x" by (simp add: good_def Tag)
    from balanced_uptoD[OF b w this 2(2)] show ?thesis .
  next
    case 3
    have "\<forall>y\<in>set (find_all ''parameteritem'' x). weight y \<le> Suc n"
      using weight_find_all[of _ "''parameteritem''" x] w by fastforce
    from plist_items_balanced[OF b _ this 3] w show ?thesis by simp
  qed
qed

lemma first_named_in: "first_named nm cs = Some t \<Longrightarrow> t \<in> set cs"
proof -
  assume "first_named nm cs = Some t"
  then obtain ys where "filter (\<lambda>x. tag_name x = Some nm) cs = t # ys"
    by (auto simp: first_named_def split: list.splits)
  then have "t \<in> set (filter (\<lambda>x. tag_name x = Some nm) cs)" by simp
  then show ?thesis by simp
qed

lemma set_compound_items: "set (snd (compound_items cs)) \<subseteq> set cs"
  by (auto simp: compound_items_def split: option.splits dest: first_named_in)

lemma set_enum_items: "enum_items cs = Some items \<Longrightarrow> set items \<subseteq> insert (Text []) (set cs)"
  by (auto simp: enum_items_def Let_def split: option.splits dest: first_named_in)

lemma weight_child: "c \<in> set cs \<Longrightarrow> weight c \<le> sum_list (map weight cs)"
  by (simp add: member_le_sum_list)

lemma finish_Return:
  assumes "finish r (Return res, st) = (Return s, st')"
  shows "get_ctx r st \<noteq> []"
  using assms by (auto simp: finish_def Let_def split: if_splits)

lemma butlast_two: "butlast (xs @ [a, b]) = xs @ [a]"
  by (simp add: butlast_append)

lemma finish_push:
  assumes "nm \<noteq> ''enum''"
  shows "snd (finish r (Return res, push_ctx r nm st)) = st"
  using assms by (simp add: finish_def Let_def push_ctx_def)

lemma finish_push_enum:
  "snd (finish r (Return res, push_ctx r ''enum'' (push_ctx r nm st))) = st"
  by (simp add: finish_def Let_def push_ctx_def butlast_two)

lemma finish_Raise: "finish r (Raise e, st) = (Raise e, st)"
  by (simp add: finish_def)

lemma convert_to_rst_Return:
  assumes c: "convert_to_rst P (Tag nm a cs) r st = (Return s, st')"
  shows "\<exists>pre items. set items \<subseteq> insert (Text []) (set cs)
     \<and> finish r (convert_items P items r pre
          (if map_of a ''kind'' = Some ''enum'' then push_ctx r ''enum'' (push_ctx r nm st)
           else push_ctx r nm st)) = (Return s, st')"
proof -
  define is_enum where "is_enum = (map_of a ''kind'' = Some ''enum'')"
  define st2 where "st2 = (if is_enum then push_ctx r ''enum'' (push_ctx r nm st) else push_ctx r nm st)"
  define pr where "pr = (if nm = ''compounddef'' \<or> nm = ''memberdef'' then lookup_prefix P a else Return [])"
  define li where "li = (if nm = ''compounddef'' then compound_items cs else (False, cs))"
  have e: "convert_to_rst P (Tag nm a cs) r st = (case pr of
           Raise e \<Rightarrow> (Raise e, st2)
         | Return pre \<Rightarrow>
             (if \<not> fst li \<and> is_enum then
                   (case enum_items cs of
                      None \<Rightarrow> (Raise StopIteration, st2)
                    | Some items \<Rightarrow> finish r (convert_items P items r pre st2))
                 else finish r (convert_items P (snd li) r pre st2)))"
    unfolding convert_to_rst.simps Let_def is_enum_def st2_def pr_def li_def case_prod_beta ..
  from c[unfolded e] obtain pre where pre: "pr = Return pre" by (cases pr) auto
  have sli: "set (snd li) \<subseteq> set cs" unfolding li_def using set_compound_items[of cs] by simp
  show ?thesis
  proof (cases "\<not> fst li \<and> is_enum")
    case True
    with c[unfolded e] pre obtain items where e: "enum_items cs = Some items"
      and "finish r (convert_items P items r pre st2) = (Return s, st')"
      by (cases "enum_items cs") auto
    with set_enum_items[OF e] show ?thesis unfolding st2_def is_enum_def by blast
  next
    case False
    with c[unfolded e] pre have "finish r (convert_items P (snd li) r pre st2) = (Return s, st')" by auto
    with sli show ?thesis unfolding st2_def is_enum_def by blast
  qed
qed

lemma balanced_step:
  assumes b: "balanced_upto n"
  shows "balanced_upto (Suc n)"
  unfolding balanced_upto_def
proof (intro allI impI)
  fix x P r st s st'
  assume w: "weight x \<le> Suc n" and g: "good x" and c: "convert_to_rst P x r st = (Return s, st')"
  from c obtain nm a cs where x: "x = Tag nm a cs" by (cases x) auto
  have cw: "weight c \<le> n" if "c \<in> set cs" for c
    using weight_child[OF that] w unfolding x by simp
  have item: "st0' = st0"
    if "y \<in> insert (Text []) (set cs)" "convert_item P y r res0 st0 = (Return s0, st0')"
    for y res0 st0 s0 st0'
  proof (cases "y \<in> set cs")
    case True
    from convert_item_balanced[OF b cw[OF True] that(2)] show ?thesis .
  next
    case False
    with that(1) have "y = Text []" by simp
    with that(2) show ?thesis by simp
  qed
  define st2 where "st2 = (if map_of a ''kind'' = Some ''enum'' then push_ctx r ''enum'' (push_ctx r nm st)
           else push_ctx r nm st)"
  from convert_to_rst_Return[OF c[unfolded x]] obtain pre items where
    i: "set items \<subseteq> insert (Text []) (set cs)"
    and f: "finish r (convert_items P items r pre st2) = (Return s, st')"
    unfolding st2_def by blast
  obtain q st3 where l: "convert_items P items r pre st2 = (q, st3)" by fastforce
  with f obtain res1 where q: "q = Return res1"
    by (cases q) (auto simp: finish_def)
  have st3: "st3 = st2"
  proof (rule convert_items_balanced[OF _ l[unfolded q]])
    fix y res0 st0 s0 st0'
    assume "y \<in> set items" "convert_item P y r res0 st0 = (Return s0, st0')"
    with i show "st0' = st0" using item[of y res0 st0 s0 st0'] by blast
  qed
  from f l q st3 have f2: "finish r (Return res1, st2) = (Return s, st')" by simp
  show "st' = st"
  proof (cases "map_of a ''kind'' = Some ''enum''")
    case True
    from finish_push_enum[of r res1 nm st] f2 show ?thesis by (simp add: st2_def True)
  next
    case False
    with g have "nm \<noteq> ''enum''" by (simp add: good_def x)
    from finish_push[OF this, of r res1 st] f2 show ?thesis by (simp add: st2_def False)
  qed
qed

lemma balanced_all: "balanced_upto n"
proof (induction n)
  case 0
  show ?case unfolding balanced_upto_def
  proof (intro allI impI)
    fix x P r st s st'
    assume "weight x \<le> 0" "convert_to_rst P x r st = (Return s, st')"
    then show "st' = st" by (cases x) auto
  qed
next
  case (Suc n)
  then show ?case by (rule balanced_step)
qed

text \<open>
  For every element whose tag is not \<open>enum\<close>, or whose kind is \<open>enum\<close>, and for either
  list as the context: when \<open>convert_to_rst\<close> returns, both lists are as they were.
\<close>

lemma convert_to_rst_balanced:
  assumes "nm \<noteq> ''enum'' \<or> map_of a ''kind'' = Some ''enum''"
    and "convert_to_rst P (Tag nm a cs) r st = (Return s, st')"
  shows "st' = st"
proof -
  from assms(1) have "good (Tag nm a cs)" by (simp add: good_def)
  from balanced_uptoD[OF balanced_all le_refl this assms(2)] show ?thesis .
qed

text \<open>
  Claim C4. After \<open>convert_to_rst(node, context)\<close> returns, the context list has its
  content of before the call. The source fails this at an element whose tag is
  \<open>enum\<close> and whose kind is not: the one entry pushed on entry is taken for the marker of
  the kind and popped, and the second pop removes an entry of the caller.
\<close>

theorem convert_to_rst_enum_tag_unbalanced:
  "convert_to_rst None (Tag ''enum'' [] []) Own \<lparr>dflt = [], own = [''para'']\<rparr>
   = (Return [], \<lparr>dflt = [], own = []\<rparr>)"
  by (simp add: push_ctx_def get_ctx_def set_ctx_def finish_def)

section \<open>Unhandled tags and code blocks\<close>

lemma unknown_child_contributes_nothing:
  assumes "nm \<notin> set handled_tags"
  shows "convert_item P (Tag nm a cs) r res st = (Return res, st)"
  using assms unfolding handled_tags_def convert_item.simps Let_def by simp

lemma unknown_root_renders_children:
  assumes "nm \<notin> set handled_tags" "nm \<noteq> ''compounddef''" "nm \<noteq> ''memberdef''"
    and "map_of a ''kind'' \<noteq> Some ''enum''"
  shows "convert_to_rst P (Tag nm a cs) r st = finish r (convert_items P cs r [] (push_ctx r nm st))"
  using assms by (simp add: Let_def)

subsection \<open>Calls on the default list do not read the caller's list\<close>

lemma upd_own_simps [simp]: "upd_own c (q, st) = (q, st\<lparr>own := c\<rparr>)"
  by (simp add: upd_own_def)

lemma append_to_upd: "append_to pre (upd_own c rs) = upd_own c (append_to pre rs)"
  by (cases rs) (auto simp: append_to_def split: result.splits)

lemma lift_pure_upd: "lift_pure pre q (st\<lparr>own := c\<rparr>) = upd_own c (lift_pure pre q st)"
  by (auto simp: lift_pure_def split: result.splits)

lemma get_ctx_Default_own [simp]: "get_ctx Default (st\<lparr>own := c\<rparr>) = get_ctx Default st"
  by (simp add: get_ctx_def)

lemma set_ctx_Default_own: "set_ctx Default v (st\<lparr>own := c\<rparr>) = (set_ctx Default v st)\<lparr>own := c\<rparr>"
  by (simp add: set_ctx_def)

lemma push_ctx_Default_own: "push_ctx Default v (st\<lparr>own := c\<rparr>) = (push_ctx Default v st)\<lparr>own := c\<rparr>"
  by (simp add: push_ctx_def set_ctx_Default_own)

lemma para_post_upd: "para_post Default (upd_own c rs) = upd_own c (para_post Default rs)"
  by (cases rs) (auto simp: para_post_def Let_def split: result.splits)

lemma finish_upd: "finish Default (upd_own c rs) = upd_own c (finish Default rs)"
  by (cases rs) (auto simp: finish_def Let_def set_ctx_Default_own split: result.splits)

lemma framed_uptoD:
  "framed_upto n \<Longrightarrow> weight x \<le> n \<Longrightarrow>
     convert_to_rst P x Default (st\<lparr>own := c\<rparr>) = upd_own c (convert_to_rst P x Default st)"
  unfolding framed_upto_def by blast

lemma found_framed:
  assumes "framed_upto n" "find_tag nm z = Some t" "weight z \<le> Suc n"
  shows "convert_to_rst P t Default (st\<lparr>own := c\<rparr>) = upd_own c (convert_to_rst P t Default st)"
proof -
  from weight_find_tag[OF assms(2)] assms(3) have "weight t \<le> n" by simp
  from framed_uptoD[OF assms(1) this] show ?thesis .
qed

lemma plist_items_framed:
  assumes b: "framed_upto n" and x: "weight x \<le> Suc n"
  shows "\<forall>y\<in>set ys. weight y \<le> Suc n \<Longrightarrow>
     plist_items P k x ys Default res (st\<lparr>own := c\<rparr>) = upd_own c (plist_items P k x ys Default res st)"
proof (induction ys arbitrary: res st)
  case Nil
  show ?case by simp
next
  case (Cons y ys)
  have y: "weight y \<le> Suc n" using Cons.prems by simp
  have IH: "plist_items P k x ys Default res0 (st0\<lparr>own := c\<rparr>)
      = upd_own c (plist_items P k x ys Default res0 st0)" for res0 st0
    using Cons.IH Cons.prems by simp
  have fy: "find_tag nm y = Some t \<Longrightarrow>
      convert_to_rst P t Default (st0\<lparr>own := c\<rparr>) = upd_own c (convert_to_rst P t Default st0)"
    for nm t st0 by (rule found_framed[OF b _ y])
  have fx: "find_tag nm x = Some t \<Longrightarrow>
      convert_to_rst P t Default (st0\<lparr>own := c\<rparr>) = upd_own c (convert_to_rst P t Default st0)"
    for nm t st0 by (rule found_framed[OF b _ x])
  show ?case
  proof (cases "find_tag ''parametername'' y")
    case None
    then show ?thesis by (cases k) simp_all
  next
    case pn: (Some pn)
    show ?thesis
    proof (cases k)
      case TemplateParam
      show ?thesis
      proof (cases "find_tag ''parameterdescription'' y")
        case None
        with pn show ?thesis unfolding TemplateParam by simp
      next
        case pd: (Some pd)
        obtain q st1 where a: "convert_to_rst P pd Default st = (q, st1)" by fastforce
        show ?thesis unfolding TemplateParam
          using pn pd fy[OF pd, of st] a IH[unfolded TemplateParam]
          by (cases q) (simp_all add: Let_def append_to_def)
      qed
    next
      case Param
      show ?thesis
      proof (cases "find_tag ''parameterdescription'' x")
        case None
        with pn show ?thesis unfolding Param by simp
      next
        case pd: (Some pd)
        obtain q st1 where a: "convert_to_rst P pd Default st = (q, st1)" by fastforce
        show ?thesis unfolding Param
          using pn pd fx[OF pd, of st] a IH[unfolded Param]
          by (cases q) (simp_all add: Let_def append_to_def)
      qed
    next
      case Exception
      obtain q st1 where a: "convert_to_rst P pn Default st = (q, st1)" by fastforce
      show ?thesis
      proof (cases q)
        case (Raise e)
        show ?thesis unfolding Exception using pn fy[OF pn, of st] a Raise
          by (simp add: Let_def append_to_def)
      next
        case (Return t)
        show ?thesis
        proof (cases "find_tag ''parameterdescription'' y")
          case None
          show ?thesis unfolding Exception using pn fy[OF pn, of st] a Return None
            by (simp add: Let_def append_to_def)
        next
          case pd: (Some pd)
          obtain q2 st2 where a2: "convert_to_rst P pd Default st1 = (q2, st2)" by fastforce
          show ?thesis unfolding Exception
            using pn fy[OF pn, of st] a Return pd fy[OF pd, of st1] a2 IH[unfolded Exception]
            by (cases q2) (simp_all add: Let_def append_to_def)
        qed
      qed
    qed
  qed
qed

lemma convert_items_framed:
  "(\<And>x res st. x \<in> set xs \<Longrightarrow>
      convert_item P x Default res (st\<lparr>own := c\<rparr>) = upd_own c (convert_item P x Default res st))
   \<Longrightarrow> convert_items P xs Default res (st\<lparr>own := c\<rparr>) = upd_own c (convert_items P xs Default res st)"
proof (induction xs arbitrary: res st)
  case Nil
  show ?case by simp
next
  case (Cons x xs)
  have 1: "convert_item P x Default res (st\<lparr>own := c\<rparr>) = upd_own c (convert_item P x Default res st)"
    by (rule Cons.prems) simp
  have IH: "convert_items P xs Default res0 (st0\<lparr>own := c\<rparr>)
      = upd_own c (convert_items P xs Default res0 st0)" for res0 st0
    by (rule Cons.IH) (simp add: Cons.prems)
  show ?case
    unfolding convert_items.simps 1
    by (cases "convert_item P x Default res st") (auto simp: IH split: result.splits)
qed

lemma convert_item_framed:
  assumes b: "framed_upto n" and w: "weight x \<le> n"
  shows "convert_item P x Default res (st\<lparr>own := c\<rparr>) = upd_own c (convert_item P x Default res st)"
proof (cases x)
  case (Text t)
  show ?thesis unfolding Text by simp
next
  case (Tag nm a cs)
  have r: "convert_to_rst P (Tag nm a cs) Default (st\<lparr>own := c\<rparr>)
      = upd_own c (convert_to_rst P (Tag nm a cs) Default st)"
    using framed_uptoD[OF b w] unfolding Tag .
  have "\<forall>y\<in>set (find_all ''parameteritem'' x). weight y \<le> Suc n"
    using weight_find_all[of _ "''parameteritem''" x] w by fastforce
  from plist_items_framed[OF b _ this] w
  have p: "plist_items P k (Tag nm a cs) (find_all ''parameteritem'' (Tag nm a cs)) Default res (st\<lparr>own := c\<rparr>)
      = upd_own c (plist_items P k (Tag nm a cs) (find_all ''parameteritem'' (Tag nm a cs)) Default res st)" for k
    unfolding Tag by simp
  show ?thesis
    unfolding Tag convert_item.simps Let_def get_ctx_Default_own r p append_to_upd para_post_upd lift_pure_upd
    by (simp split: option.splits del: convert_to_rst.simps find_all.simps)
qed

lemma framed_step:
  assumes b: "framed_upto n"
  shows "framed_upto (Suc n)"
  unfolding framed_upto_def
proof (intro allI impI)
  fix x P st c
  assume w: "weight x \<le> Suc n"
  show "convert_to_rst P x Default (st\<lparr>own := c\<rparr>) = upd_own c (convert_to_rst P x Default st)"
  proof (cases x)
    case (Text t)
    show ?thesis unfolding Text by simp
  next
    case (Tag nm a cs)
    have cw: "weight y \<le> n" if "y \<in> set cs" for y
      using weight_child[OF that] w unfolding Tag by simp
    have loop: "convert_items P items Default res0 (st0\<lparr>own := c\<rparr>)
        = upd_own c (convert_items P items Default res0 st0)"
      if "set items \<subseteq> insert (Text []) (set cs)" for items res0 st0
    proof (rule convert_items_framed)
      fix y res1 st1
      assume "y \<in> set items"
      with that have "y = Text [] \<or> y \<in> set cs" by blast
      then show "convert_item P y Default res1 (st1\<lparr>own := c\<rparr>)
          = upd_own c (convert_item P y Default res1 st1)"
      proof
        assume "y = Text []"
        then show ?thesis by simp
      next
        assume "y \<in> set cs"
        from convert_item_framed[OF b cw[OF this]] show ?thesis .
      qed
    qed
    have l1: "convert_items P cs Default res0 (st0\<lparr>own := c\<rparr>)
        = upd_own c (convert_items P cs Default res0 st0)" for res0 st0
      by (rule loop) blast
    have l2: "convert_items P (snd (compound_items cs)) Default res0 (st0\<lparr>own := c\<rparr>)
        = upd_own c (convert_items P (snd (compound_items cs)) Default res0 st0)" for res0 st0
      by (rule loop) (use set_compound_items[of cs] in blast)
    have l3: "enum_items cs = Some items \<Longrightarrow> convert_items P items Default res0 (st0\<lparr>own := c\<rparr>)
        = upd_own c (convert_items P items Default res0 st0)" for items res0 st0
      by (rule loop) (use set_enum_items[of cs items] in blast)
    show ?thesis
      unfolding Tag convert_to_rst.simps Let_def push_ctx_Default_own case_prod_beta
      by (auto simp: l1 l2 l3 finish_upd push_ctx_Default_own split: result.splits option.splits)
  qed
qed

lemma framed_all: "framed_upto n"
proof (induction n)
  case 0
  show ?case unfolding framed_upto_def
  proof (intro allI impI)
    fix x :: xml and P st c
    assume "weight x \<le> 0"
    then obtain t where "x = Text t" by (cases x) auto
    then show "convert_to_rst P x Default (st\<lparr>own := c\<rparr>) = upd_own c (convert_to_rst P x Default st)"
      by simp
  qed
next
  case (Suc n)
  then show ?case by (rule framed_step)
qed

lemma convert_to_rst_Default_frame:
  "convert_to_rst P x Default (st\<lparr>own := c\<rparr>) = upd_own c (convert_to_rst P x Default st)"
  by (rule framed_uptoD[OF framed_all le_refl])

text \<open>
  Claim C3, as the source has it. A child element whose tag is not one of those the loop
  of \<open>convert_to_rst\<close> handles adds nothing to the output: no markup, none of the text
  below it, and no error. The children of such an element are rendered, with no markup
  of its own, only when the element is itself the argument of \<open>convert_to_rst\<close>.
\<close>

theorem unknown_tag_rendering:
  assumes "nm \<notin> set handled_tags"
  shows "convert_item P (Tag nm a cs) r res st = (Return res, st)
    \<and> (nm \<noteq> ''compounddef'' \<and> nm \<noteq> ''memberdef'' \<and> map_of a ''kind'' \<noteq> Some ''enum''
       \<longrightarrow> convert_to_rst P (Tag nm a cs) r st
           = finish r (convert_items P cs r [] (push_ctx r nm st)))"
  using unknown_child_contributes_nothing[OF assms] unknown_root_renders_children[OF assms]
  by blast

theorem unknown_tag_rendering_witness:
  "''foo'' \<notin> set handled_tags
   \<and> convert_item None (Tag ''foo'' [] [Text ''hello'']) Default [] \<lparr>dflt = [], own = []\<rparr>
       = (Return [], \<lparr>dflt = [], own = []\<rparr>)
   \<and> convert_to_rst None (Tag ''foo'' [] [Text ''hello'']) Default \<lparr>dflt = [], own = []\<rparr>
       = (Return '' hello'', \<lparr>dflt = [], own = []\<rparr>)"
proof -
  have h: "''foo'' \<notin> set handled_tags" by (simp add: handled_tags_def)
  have e: "finish Default (convert_items None [Text ''hello''] Default []
             (push_ctx Default ''foo'' \<lparr>dflt = [], own = []\<rparr>))
           = (Return '' hello'', \<lparr>dflt = [], own = []\<rparr>)"
    by (simp add: push_ctx_def get_ctx_def set_ctx_def finish_def text_piece_def strip_def
        isspace_def isupper_def)
  from unknown_tag_rendering [OF h, of None "[]" "[Text ''hello'']" Default "[]" "\<lparr>dflt = [], own = []\<rparr>"]
  show ?thesis using h e by simp
qed

text \<open>
  The claim as stated fails: the text below an unhandled child is dropped, where the same
  text directly below the paragraph is rendered.
\<close>

theorem unknown_child_dropped_counterexample:
  "convert_to_rst None (Tag ''para'' [] [Tag ''foo'' [] [Text ''hello'']]) Default \<lparr>dflt = [], own = []\<rparr>
     = (Return [], \<lparr>dflt = [], own = []\<rparr>)
   \<and> convert_to_rst None (Tag ''para'' [] [Text ''hello'']) Default \<lparr>dflt = [], own = []\<rparr>
     = (Return '' hello'', \<lparr>dflt = [], own = []\<rparr>)"
  by (simp add: push_ctx_def get_ctx_def set_ctx_def finish_def append_to_def para_post_def
      text_piece_def strip_def isspace_def isupper_def)

text \<open>
  Claim C10, as the source has it. For a caller whose context is a list of its own, the
  text added for a \<open>programlisting\<close> child is the directive line, indented by the
  caller's context, followed by the text of the block; the text of the block is that of
  a call on the default list and does not depend on the caller's context.
\<close>

theorem programlisting_text:
  "fst (convert_item P (Tag ''programlisting'' a cs) Own res \<lparr>dflt = d, own = c\<rparr>)
   = (case fst (convert_to_rst P (Tag ''programlisting'' a cs) Default \<lparr>dflt = d, own = []\<rparr>) of
        Return t \<Rightarrow> Return (res @ [CHR 0x0A, CHR 0x0A] @ indent c @ ''.. code-block::'' @ [CHR 0x0A] @ t)
      | Raise e \<Rightarrow> Raise e)"
proof -
  let ?x = "Tag ''programlisting'' a cs"
  have s: "\<lparr>dflt = d, own = c\<rparr> = \<lparr>dflt = d, own = []\<rparr>\<lparr>own := c\<rparr>" by simp
  obtain q st1 where q: "convert_to_rst P ?x Default \<lparr>dflt = d, own = []\<rparr> = (q, st1)" by fastforce
  have f: "convert_to_rst P ?x Default \<lparr>dflt = d, own = c\<rparr> = (q, st1\<lparr>own := c\<rparr>)"
    unfolding s convert_to_rst_Default_frame q by simp
  have "convert_item P ?x Own res \<lparr>dflt = d, own = c\<rparr>
      = append_to (res @ [CHR 0x0A] @ [CHR 0x0A] @ indent c @ ''.. code-block::'' @ [CHR 0x0A])
          (convert_to_rst P ?x Default \<lparr>dflt = d, own = c\<rparr>)"
    unfolding convert_item.simps Let_def by (simp add: get_ctx_def del: convert_to_rst.simps)
  then show ?thesis unfolding f q by (cases q) (simp_all add: append_to_def)
qed

theorem programlisting_text_witness:
  "fst (convert_item None
         (Tag ''programlisting'' [] [Tag ''codeline'' [] [Tag ''highlight'' [] [Text ''x = 1'']]])
         Own [] \<lparr>dflt = [], own = [''memberdef'']\<rparr>)
   = Return ([CHR 0x0A, CHR 0x0A] @ ''   .. code-block::'' @ [CHR 0x0A, CHR 0x0A] @ ''    x = 1'')"
proof -
  let ?x = "Tag ''programlisting'' [] [Tag ''codeline'' [] [Tag ''highlight'' [] [Text ''x = 1'']]]"
  have e: "fst (convert_to_rst None ?x Default \<lparr>dflt = [], own = []\<rparr>)
      = Return ([CHR 0x0A] @ ''    x = 1'')"
    by (simp add: push_ctx_def get_ctx_def set_ctx_def finish_def append_to_def indent_def
        text_piece_def strip_def isspace_def isupper_def numeral_3_eq_3)
  have i: "indent [''memberdef''] = ''   ''" by code_simp
  from programlisting_text [of None "[]" "[Tag ''codeline'' [] [Tag ''highlight'' [] [Text ''x = 1'']]]"
      "[]" "[]" "[''memberdef'']"]
  show ?thesis unfolding e i by simp
qed

text \<open>
  The claim as stated fails: the same \<open>programlisting\<close> element gives different text
  under an empty context and under a context that holds \<open>memberdef\<close>.
\<close>

theorem programlisting_context_counterexample:
  "fst (convert_item None
         (Tag ''programlisting'' [] [Tag ''codeline'' [] [Tag ''highlight'' [] [Text ''x = 1'']]])
         Own [] \<lparr>dflt = [], own = []\<rparr>)
   \<noteq> fst (convert_item None
         (Tag ''programlisting'' [] [Tag ''codeline'' [] [Tag ''highlight'' [] [Text ''x = 1'']]])
         Own [] \<lparr>dflt = [], own = [''memberdef'']\<rparr>)"
  by (simp add: push_ctx_def get_ctx_def set_ctx_def finish_def append_to_def indent_def
      text_piece_def strip_def isspace_def isupper_def)

section \<open>Lookups in the symbol dictionary\<close>

subsection \<open>Keys are never removed\<close>

lemma map_of_dict_set: "map_of (dict_set k v d) = (map_of d)(k \<mapsto> v)"
  by (induction d) (auto simp: fun_eq_iff)

lemma has_key_dict_set: "has_key (dict_set k v d) k' = (k' = k \<or> has_key d k')"
  by (simp add: has_key_def map_of_dict_set)

lemma class_member_keys: "has_key d k \<Longrightarrow> has_key (snd (class_member cls x d)) k"
  by (simp add: class_member_def Let_def has_key_dict_set
           split: option.split result.split dval.split)

lemma class_members_keys: "has_key d k \<Longrightarrow> has_key (snd (class_members cls xs d)) k"
proof (induction xs arbitrary: d)
  case Nil
  then show ?case by simp
next
  case (Cons x xs)
  obtain r d1 where c: "class_member cls x d = (r, d1)" by (cases "class_member cls x d")
  with class_member_keys[OF Cons.prems, of cls x] have k: "has_key d1 k" by simp
  show ?case
  proof (cases r)
    case (Return u)
    with c Cons.IH[OF k] show ?thesis by simp
  next
    case (Raise e)
    with c k show ?thesis by simp
  qed
qed

lemma namespace_members_keys: "has_key d k \<Longrightarrow> has_key (snd (namespace_members ns xs d)) k"
proof (induction xs arbitrary: d)
  case Nil
  then show ?case by simp
next
  case (Cons x xs)
  show ?case
  proof (cases "find_tag ''name'' x")
    case None
    with Cons.prems show ?thesis by simp
  next
    case (Some n)
    let ?y = "ns @ ''::'' @ text_of n"
    show ?thesis
    proof (cases "has_key d ?y")
      case True
      with Cons.IH[OF Cons.prems] Some show ?thesis by (simp add: Let_def)
    next
      case False
      from Cons.prems have "has_key (dict_set ?y (DTag x []) d) k" by (simp add: has_key_dict_set)
      from Cons.IH[OF this] Some False show ?thesis by (simp add: Let_def)
    qed
  qed
qed

lemma class_scopes_append: "class_scopes (a @ b) = class_scopes a @ class_scopes b"
  by (induction a rule: class_scopes.induct) simp_all

text \<open>What the scan of the namespace files leaves alone.\<close>

lemma namespace_files_frame:
  "doxy_xml_cache (snd (namespace_files files fnames s)) = doxy_xml_cache s
   \<and> gen (snd (namespace_files files fnames s)) = gen s
   \<and> doxy_warn_cache (snd (namespace_files files fnames s)) = doxy_warn_cache s
   \<and> class_scopes (parsed (snd (namespace_files files fnames s))) = class_scopes (parsed s)
   \<and> (has_key (DOXY_DICT s) k \<longrightarrow> has_key (DOXY_DICT (snd (namespace_files files fnames s))) k)"
proof (induction fnames arbitrary: s)
  case Nil
  show ?case by simp
next
  case (Cons fname fnames)
  show ?case
  proof (cases "startswith fname ''namespace''")
    case False
    with Cons.IH[of s] show ?thesis by simp
  next
    case True
    show ?thesis
    proof (cases "open_xml files (''build/xml/'' @ fname)")
      case (Raise e)
      with True show ?thesis by simp
    next
      case (Return doc)
      let ?s = "s\<lparr>parsed := parsed s @ [ParsedNamespace (''build/xml/'' @ fname)]\<rparr>"
      show ?thesis
      proof (cases "find_tag ''compoundname'' doc")
        case None
        with True Return show ?thesis by (simp add: class_scopes_append)
      next
        case (Some c)
        obtain r d where m: "namespace_members (text_of c) (find_all ''memberdef'' doc) (DOXY_DICT s) = (r, d)"
          by (cases "namespace_members (text_of c) (find_all ''memberdef'' doc) (DOXY_DICT s)")
        have kd: "has_key (DOXY_DICT s) k \<longrightarrow> has_key d k"
          using namespace_members_keys[of "DOXY_DICT s" k "text_of c" "find_all ''memberdef'' doc"] m
          by simp
        show ?thesis
        proof (cases r)
          case (Raise e)
          with True Return Some m kd show ?thesis by (simp add: class_scopes_append)
        next
          case (Return u)
          have e: "namespace_files files (fname # fnames) s = namespace_files files fnames (?s\<lparr>DOXY_DICT := d\<rparr>)"
            using True \<open>open_xml files (''build/xml/'' @ fname) = Return doc\<close> Some m Return
            by simp
          from Cons.IH[of "?s\<lparr>DOXY_DICT := d\<rparr>"] kd show ?thesis
            unfolding e by (simp add: class_scopes_append)
        qed
      qed
    qed
  qed
qed

lemma namespace_scan_frame:
  "doxy_xml_cache (snd (namespace_scan files s)) = doxy_xml_cache s
   \<and> gen (snd (namespace_scan files s)) = gen s
   \<and> doxy_warn_cache (snd (namespace_scan files s)) = doxy_warn_cache s
   \<and> class_scopes (parsed (snd (namespace_scan files s))) = class_scopes (parsed s)
   \<and> (has_key (DOXY_DICT s) k \<longrightarrow> has_key (DOXY_DICT (snd (namespace_scan files s))) k)"
proof (cases "os_listdir files ''build/xml''")
  case (Raise e)
  then show ?thesis by (simp add: namespace_scan_def)
next
  case (Return fnames)
  with namespace_files_frame[of files fnames s k] show ?thesis by (simp add: namespace_scan_def)
qed

text \<open>What parsing the file of a scope does and leaves alone.\<close>

lemma load_class_frame:
  "doxy_xml_cache (snd (load_class files cls s)) = doxy_xml_cache s
   \<and> gen (snd (load_class files cls s)) = gen s
   \<and> doxy_warn_cache (snd (load_class files cls s)) = doxy_warn_cache s
   \<and> (has_key (DOXY_DICT s) k \<longrightarrow> has_key (DOXY_DICT (snd (load_class files cls s))) k)"
proof (cases "open_xml files (doxy_filename files cls)")
  case (Raise e)
  then show ?thesis by (simp add: load_class_def)
next
  case (Return doc)
  let ?v = "case find_tag ''compounddef'' doc of None \<Rightarrow> DNone | Some c \<Rightarrow> DTag c []"
  obtain r d where m: "class_members cls (find_all ''memberdef'' doc) (dict_set cls ?v (DOXY_DICT s)) = (r, d)"
    by (cases "class_members cls (find_all ''memberdef'' doc) (dict_set cls ?v (DOXY_DICT s))")
  have "has_key (DOXY_DICT s) k \<longrightarrow> has_key d k"
    using class_members_keys[of "dict_set cls ?v (DOXY_DICT s)" k cls "find_all ''memberdef'' doc"] m
    by (simp add: has_key_dict_set)
  with Return m show ?thesis by (simp add: load_class_def Let_def)
qed

lemma load_class_scopes:
  assumes "isfile files (doxy_filename files cls)"
  shows "class_scopes (parsed (snd (load_class files cls s))) = class_scopes (parsed s) @ [cls]
         \<and> has_key (DOXY_DICT (snd (load_class files cls s))) cls"
proof -
  from assms obtain doc where o: "open_xml files (doxy_filename files cls) = Return doc"
    by (auto simp: isfile_def open_xml_def split: option.splits xml_entry.splits)
  let ?v = "case find_tag ''compounddef'' doc of None \<Rightarrow> DNone | Some c \<Rightarrow> DTag c []"
  obtain r d where m: "class_members cls (find_all ''memberdef'' doc) (dict_set cls ?v (DOXY_DICT s)) = (r, d)"
    by (cases "class_members cls (find_all ''memberdef'' doc) (dict_set cls ?v (DOXY_DICT s))")
  have "has_key d cls"
    using class_members_keys[of "dict_set cls ?v (DOXY_DICT s)" cls cls "find_all ''memberdef'' doc"] m
    by (simp add: has_key_dict_set)
  with o m show ?thesis by (simp add: load_class_def Let_def class_scopes_append)
qed

subsection \<open>The state after a lookup\<close>

lemma populate_frame:
  "doxy_xml_cache (snd (populate files name s)) = doxy_xml_cache s
   \<and> gen (snd (populate files name s)) = gen s
   \<and> doxy_warn_cache (snd (populate files name s)) = doxy_warn_cache s
   \<and> (has_key (DOXY_DICT s) k \<longrightarrow> has_key (DOXY_DICT (snd (populate files name s))) k)"
  using load_class_frame[of files "resolve_scope files name" s k] namespace_scan_frame[of files s k]
  by (simp add: populate_def Let_def)

lemma populate_scopes:
  assumes d: "distinct (class_scopes (parsed s))"
    and k: "\<forall>c\<in>set (class_scopes (parsed s)). has_key (DOXY_DICT s) c"
  shows "distinct (class_scopes (parsed (snd (populate files name s))))
         \<and> (\<forall>c\<in>set (class_scopes (parsed (snd (populate files name s)))).
              has_key (DOXY_DICT (snd (populate files name s))) c)"
proof -
  let ?cls = "resolve_scope files name"
  have "populate files name s = (Return (), s)
        \<or> (populate files name s = load_class files ?cls s
             \<and> isfile files (doxy_filename files ?cls) \<and> \<not> has_key (DOXY_DICT s) ?cls)
        \<or> populate files name s = namespace_scan files s"
    by (simp add: populate_def Let_def)
  then consider (same) "populate files name s = (Return (), s)"
    | (load) "populate files name s = load_class files ?cls s"
        "isfile files (doxy_filename files ?cls)" "\<not> has_key (DOXY_DICT s) ?cls"
    | (scan) "populate files name s = namespace_scan files s"
    by blast
  then show ?thesis
  proof cases
    case same
    with d k show ?thesis by simp
  next
    case load
    let ?s = "snd (load_class files ?cls s)"
    from load_class_scopes[OF load(2), of s]
    have sc: "class_scopes (parsed ?s) = class_scopes (parsed s) @ [?cls]"
      and hk: "has_key (DOXY_DICT ?s) ?cls" by simp_all
    from k load(3) have "?cls \<notin> set (class_scopes (parsed s))" by auto
    with d sc have 1: "distinct (class_scopes (parsed ?s))" by simp
    have 2: "\<forall>c\<in>set (class_scopes (parsed ?s)). has_key (DOXY_DICT ?s) c"
    proof
      fix c assume "c \<in> set (class_scopes (parsed ?s))"
      with sc have "c = ?cls \<or> c \<in> set (class_scopes (parsed s))" by auto
      then show "has_key (DOXY_DICT ?s) c"
      proof
        assume "c = ?cls"
        with hk show ?thesis by simp
      next
        assume "c \<in> set (class_scopes (parsed s))"
        with k have "has_key (DOXY_DICT s) c" by simp
        with load_class_frame[of files ?cls s c] show ?thesis by simp
      qed
    qed
    from 1 2 show ?thesis unfolding load(1) by simp
  next
    case scan
    let ?s = "snd (namespace_scan files s)"
    have sc: "class_scopes (parsed ?s) = class_scopes (parsed s)"
      using namespace_scan_frame[of files s] by simp
    have "\<forall>c\<in>set (class_scopes (parsed s)). has_key (DOXY_DICT ?s) c"
    proof
      fix c assume "c \<in> set (class_scopes (parsed s))"
      with k have "has_key (DOXY_DICT s) c" by simp
      with namespace_scan_frame[of files s c] show "has_key (DOXY_DICT ?s) c" by simp
    qed
    with d sc show ?thesis unfolding scan by simp
  qed
qed

lemma doxy_xml_cases:
  "snd (doxy_xml files name params s) = s
   \<or> (\<exists>c. snd (doxy_xml files name params s) = (snd (populate files name s))\<lparr>doxy_xml_cache := c\<rparr>)"
proof (cases "map_of (doxy_xml_cache s) (name, params)")
  case (Some v)
  then show ?thesis by (simp add: doxy_xml_def)
next
  case None
  obtain r s1 where p: "populate files name s = (r, s1)" by (cases "populate files name s")
  have id: "s1 = s1\<lparr>doxy_xml_cache := doxy_xml_cache s1\<rparr>" by simp
  show ?thesis
  proof (cases r)
    case (Raise e)
    with None p have "snd (doxy_xml files name params s) = s1"
      by (simp add: doxy_xml_def doxy_xml_body_def)
    with p id show ?thesis by (metis snd_conv)
  next
    case (Return u)
    show ?thesis
    proof (cases "dict_lookup (DOXY_DICT s1) name params")
      case (Raise e)
      with None p Return have "snd (doxy_xml files name params s) = s1"
        by (simp add: doxy_xml_def doxy_xml_body_def)
      with p id show ?thesis by (metis snd_conv)
    next
      case (Return v)
      with None p \<open>r = Return u\<close>
      have "snd (doxy_xml files name params s)
            = s1\<lparr>doxy_xml_cache := doxy_xml_cache s1 @ [((name, params), v)]\<rparr>"
        by (simp add: doxy_xml_def doxy_xml_body_def)
      with p show ?thesis by auto
    qed
  qed
qed

lemma doxy_xml_frame:
  "gen (snd (doxy_xml files name params s)) = gen s
   \<and> doxy_warn_cache (snd (doxy_xml files name params s)) = doxy_warn_cache s"
  using doxy_xml_cases[of files name params s] populate_frame[of files name s]
  by auto

lemma doxy_xml_scopes:
  assumes d: "distinct (class_scopes (parsed s))"
    and k: "\<forall>c\<in>set (class_scopes (parsed s)). has_key (DOXY_DICT s) c"
  shows "distinct (class_scopes (parsed (snd (doxy_xml files name params s))))
         \<and> (\<forall>c\<in>set (class_scopes (parsed (snd (doxy_xml files name params s)))).
              has_key (DOXY_DICT (snd (doxy_xml files name params s))) c)"
proof -
  from doxy_xml_cases[of files name params s]
  consider "snd (doxy_xml files name params s) = s"
    | c where "snd (doxy_xml files name params s) = (snd (populate files name s))\<lparr>doxy_xml_cache := c\<rparr>"
    by auto
  then show ?thesis
  proof cases
    case 1
    with d k show ?thesis by simp
  next
    case 2
    from populate_scopes[OF d k, of files name] show ?thesis unfolding 2 by simp
  qed
qed

lemma calls_Lookup:
  "fst (calls files (Lookup name params # cs) s)
     = fst (doxy_xml files name params s) # fst (calls files cs (snd (doxy_xml files name params s)))"
  "snd (calls files (Lookup name params # cs) s)
     = snd (calls files cs (snd (doxy_xml files name params s)))"
  by (simp_all split: prod.split)

lemma calls_scopes:
  "distinct (class_scopes (parsed s)) \<Longrightarrow>
   \<forall>c\<in>set (class_scopes (parsed s)). has_key (DOXY_DICT s) c \<Longrightarrow>
   distinct (class_scopes (parsed (snd (calls files cs s))))"
proof (induction files cs s rule: calls.induct)
  case (1 files s)
  then show ?case by simp
next
  case (2 files name params cs s)
  obtain r s1 where x: "doxy_xml files name params s = (r, s1)"
    by (cases "doxy_xml files name params s")
  from doxy_xml_scopes[OF "2.prems", of files name params] x
  have "distinct (class_scopes (parsed s1))"
    and "\<forall>c\<in>set (class_scopes (parsed s1)). has_key (DOXY_DICT s1) c" by simp_all
  from "2.IH"[OF x[symmetric] this] x show ?case by (simp only: calls_Lookup snd_conv)
next
  case (3 files fname name params cs s)
  have "parsed (doxy_warn fname name params s) = parsed s"
    and "DOXY_DICT (doxy_warn fname name params s) = DOXY_DICT s"
    by (simp_all add: doxy_warn_def)
  with "3.prems" "3.IH" show ?case by simp
qed

subsection \<open>A scan of the namespace files depends on the dictionary only\<close>

lemma namespace_files_cong:
  "DOXY_DICT s = DOXY_DICT t \<Longrightarrow>
   fst (namespace_files files fnames s) = fst (namespace_files files fnames t)
   \<and> DOXY_DICT (snd (namespace_files files fnames s)) = DOXY_DICT (snd (namespace_files files fnames t))"
proof (induction fnames arbitrary: s t)
  case Nil
  then show ?case by simp
next
  case (Cons fname fnames)
  show ?case
  proof (cases "startswith fname ''namespace''")
    case False
    with Cons.IH[OF Cons.prems] show ?thesis by simp
  next
    case True
    show ?thesis
    proof (cases "open_xml files (''build/xml/'' @ fname)")
      case (Raise e)
      with True Cons.prems show ?thesis by simp
    next
      case (Return doc)
      note o = this
      let ?s = "s\<lparr>parsed := parsed s @ [ParsedNamespace (''build/xml/'' @ fname)]\<rparr>"
      let ?t = "t\<lparr>parsed := parsed t @ [ParsedNamespace (''build/xml/'' @ fname)]\<rparr>"
      show ?thesis
      proof (cases "find_tag ''compoundname'' doc")
        case None
        with True o Cons.prems show ?thesis by simp
      next
        case (Some c)
        obtain r d where m: "namespace_members (text_of c) (find_all ''memberdef'' doc) (DOXY_DICT s) = (r, d)"
          by (cases "namespace_members (text_of c) (find_all ''memberdef'' doc) (DOXY_DICT s)")
        with Cons.prems
        have m': "namespace_members (text_of c) (find_all ''memberdef'' doc) (DOXY_DICT t) = (r, d)"
          by simp
        show ?thesis
        proof (cases r)
          case (Raise e)
          with True o Some m m' show ?thesis by simp
        next
          case (Return u)
          have es: "namespace_files files (fname # fnames) s = namespace_files files fnames (?s\<lparr>DOXY_DICT := d\<rparr>)"
            using True o Some m Return by simp
          have et: "namespace_files files (fname # fnames) t = namespace_files files fnames (?t\<lparr>DOXY_DICT := d\<rparr>)"
            using True o Some m' Return by simp
          have "DOXY_DICT (?s\<lparr>DOXY_DICT := d\<rparr>) = DOXY_DICT (?t\<lparr>DOXY_DICT := d\<rparr>)" by simp
          from Cons.IH[OF this] show ?thesis unfolding es et .
        qed
      qed
    qed
  qed
qed

lemma namespace_scan_cong:
  "DOXY_DICT s = DOXY_DICT t \<Longrightarrow>
   fst (namespace_scan files s) = fst (namespace_scan files t)
   \<and> DOXY_DICT (snd (namespace_scan files s)) = DOXY_DICT (snd (namespace_scan files t))"
proof (cases "os_listdir files ''build/xml''")
  case (Raise e)
  assume "DOXY_DICT s = DOXY_DICT t"
  with Raise show ?thesis by (simp add: namespace_scan_def)
next
  case (Return fnames)
  assume "DOXY_DICT s = DOXY_DICT t"
  from namespace_files_cong[OF this, of files fnames] Return
  show ?thesis by (simp add: namespace_scan_def)
qed

subsection \<open>A second scan adds nothing\<close>

lemma namespace_members_absorb:
  "namespace_members ns xs d = (Return u, d') \<Longrightarrow>
   \<forall>k. has_key d' k \<longrightarrow> has_key d'' k \<Longrightarrow>
   namespace_members ns xs d'' = (Return (), d'')"
proof (induction xs arbitrary: d)
  case Nil
  then show ?case by simp
next
  case (Cons x xs)
  show ?case
  proof (cases "find_tag ''name'' x")
    case None
    with Cons.prems(1) show ?thesis by simp
  next
    case (Some n)
    let ?y = "ns @ ''::'' @ text_of n"
    let ?d = "if has_key d ?y then d else dict_set ?y (DTag x []) d"
    from Cons.prems(1) Some have r: "namespace_members ns xs ?d = (Return u, d')"
      by (cases "has_key d ?y") (simp_all add: Let_def)
    have "has_key ?d ?y" by (simp add: has_key_dict_set)
    from namespace_members_keys[OF this, of ns xs] r have "has_key d' ?y" by simp
    with Cons.prems(2) have y: "has_key d'' ?y" by simp
    from Cons.IH[OF r Cons.prems(2)] have "namespace_members ns xs d'' = (Return (), d'')" .
    with Some y show ?thesis by (simp add: Let_def)
  qed
qed

lemma namespace_files_absorb:
  "namespace_files files fnames s = (Return u, s') \<Longrightarrow>
   \<forall>k. has_key (DOXY_DICT s') k \<longrightarrow> has_key (DOXY_DICT t) k \<Longrightarrow>
   fst (namespace_files files fnames t) = Return ()
   \<and> DOXY_DICT (snd (namespace_files files fnames t)) = DOXY_DICT t"
proof (induction fnames arbitrary: s t)
  case Nil
  then show ?case by simp
next
  case (Cons fname fnames)
  show ?case
  proof (cases "startswith fname ''namespace''")
    case False
    with Cons.prems(1) have "namespace_files files fnames s = (Return u, s')" by simp
    from Cons.IH[OF this Cons.prems(2)] False show ?thesis by simp
  next
    case True
    show ?thesis
    proof (cases "open_xml files (''build/xml/'' @ fname)")
      case (Raise e)
      with True Cons.prems(1) show ?thesis by simp
    next
      case (Return doc)
      note o = this
      let ?s = "s\<lparr>parsed := parsed s @ [ParsedNamespace (''build/xml/'' @ fname)]\<rparr>"
      let ?t = "t\<lparr>parsed := parsed t @ [ParsedNamespace (''build/xml/'' @ fname)]\<rparr>"
      show ?thesis
      proof (cases "find_tag ''compoundname'' doc")
        case None
        with True o Cons.prems(1) show ?thesis by simp
      next
        case (Some c)
        obtain r d where m: "namespace_members (text_of c) (find_all ''memberdef'' doc) (DOXY_DICT s) = (r, d)"
          by (cases "namespace_members (text_of c) (find_all ''memberdef'' doc) (DOXY_DICT s)")
        show ?thesis
        proof (cases r)
          case (Raise e)
          with True o Some m Cons.prems(1) show ?thesis by simp
        next
          case (Return v)
          have es: "namespace_files files (fname # fnames) s = namespace_files files fnames (?s\<lparr>DOXY_DICT := d\<rparr>)"
            using True o Some m Return by simp
          with Cons.prems(1) have rest: "namespace_files files fnames (?s\<lparr>DOXY_DICT := d\<rparr>) = (Return u, s')"
            by simp
          have "\<forall>k. has_key d k \<longrightarrow> has_key (DOXY_DICT t) k"
          proof (intro allI impI)
            fix k assume "has_key d k"
            then have "has_key (DOXY_DICT (?s\<lparr>DOXY_DICT := d\<rparr>)) k" by simp
            with namespace_files_frame[of files fnames "?s\<lparr>DOXY_DICT := d\<rparr>" k] rest
            have "has_key (DOXY_DICT s') k" by simp
            with Cons.prems(2) show "has_key (DOXY_DICT t) k" by simp
          qed
          with m Return
          have m': "namespace_members (text_of c) (find_all ''memberdef'' doc) (DOXY_DICT t) = (Return (), DOXY_DICT t)"
            using namespace_members_absorb by blast
          have id: "?t\<lparr>DOXY_DICT := DOXY_DICT t\<rparr> = ?t" by simp
          have et: "namespace_files files (fname # fnames) t = namespace_files files fnames ?t"
            using True o Some m' id by simp
          have "\<forall>k. has_key (DOXY_DICT s') k \<longrightarrow> has_key (DOXY_DICT ?t) k"
            using Cons.prems(2) by simp
          from Cons.IH[OF rest this] show ?thesis unfolding et by simp
        qed
      qed
    qed
  qed
qed

lemma namespace_scan_absorb:
  assumes "namespace_scan files s = (Return u, s')"
  shows "fst (namespace_scan files s') = Return ()
         \<and> DOXY_DICT (snd (namespace_scan files s')) = DOXY_DICT s'"
proof (cases "os_listdir files ''build/xml''")
  case (Raise e)
  with assms show ?thesis by (simp add: namespace_scan_def)
next
  case (Return fnames)
  with assms have "namespace_files files fnames s = (Return u, s')"
    by (simp add: namespace_scan_def)
  from namespace_files_absorb[OF this, of s'] Return show ?thesis
    by (simp add: namespace_scan_def)
qed

subsection \<open>Unresolvable keys\<close>

lemma unresolvable_cong:
  assumes "DOXY_DICT s = DOXY_DICT t" "doxy_xml_cache s = doxy_xml_cache t"
  shows "unresolvable files name params s = unresolvable files name params t"
proof -
  obtain r s1 where a: "namespace_scan files s = (r, s1)" by (cases "namespace_scan files s")
  obtain q t1 where b: "namespace_scan files t = (q, t1)" by (cases "namespace_scan files t")
  from namespace_scan_cong[OF assms(1), of files] a b
  have "q = r" "DOXY_DICT t1 = DOXY_DICT s1" by simp_all
  with a b assms show ?thesis by (cases r) (simp_all add: unresolvable_def)
qed

lemma unresolvable_step:
  assumes u: "unresolvable files name params s"
  shows "fst (doxy_xml files name params s) = Raise KeyError
         \<and> unresolvable files name params (snd (doxy_xml files name params s))"
proof -
  let ?cls = "resolve_scope files name"
  from u have c: "map_of (doxy_xml_cache s) (name, params) = None"
    and n: "\<not> has_key (DOXY_DICT s) name"
    and f: "\<not> isfile files (doxy_filename files ?cls)"
    by (simp_all add: unresolvable_def)
  show ?thesis
  proof (cases "has_key (DOXY_DICT s) ?cls")
    case True
    with n f have p: "populate files name s = (Return (), s)" by (simp add: populate_def Let_def)
    from n have "dict_lookup (DOXY_DICT s) name params = Raise KeyError"
      by (simp add: dict_lookup_def has_key_def)
    with c p have "doxy_xml files name params s = (Raise KeyError, s)"
      by (simp add: doxy_xml_def doxy_xml_body_def)
    with u show ?thesis by simp
  next
    case False
    with n f have p: "populate files name s = namespace_scan files s"
      by (simp add: populate_def Let_def)
    obtain r s1 where sc: "namespace_scan files s = (r, s1)" by (cases "namespace_scan files s")
    with u False obtain v where r: "r = Return v" and n1: "\<not> has_key (DOXY_DICT s1) name"
      by (cases r) (simp_all add: unresolvable_def)
    from n1 have "dict_lookup (DOXY_DICT s1) name params = Raise KeyError"
      by (simp add: dict_lookup_def has_key_def)
    with c p sc r have x: "doxy_xml files name params s = (Raise KeyError, s1)"
      by (simp add: doxy_xml_def doxy_xml_body_def)
    from namespace_scan_frame[of files s] sc have c1: "doxy_xml_cache s1 = doxy_xml_cache s" by simp
    from sc r have "namespace_scan files s = (Return v, s1)" by simp
    from namespace_scan_absorb[OF this]
    have a: "fst (namespace_scan files s1) = Return ()"
      and b: "DOXY_DICT (snd (namespace_scan files s1)) = DOXY_DICT s1" by simp_all
    obtain q s2 where sc2: "namespace_scan files s1 = (q, s2)" by (cases "namespace_scan files s1")
    with a b have "q = Return ()" "DOXY_DICT s2 = DOXY_DICT s1" by simp_all
    with sc2 c c1 n1 f have "unresolvable files name params s1" by (simp add: unresolvable_def)
    with x show ?thesis by simp
  qed
qed

lemma unresolvable_warn:
  "unresolvable files name params (doxy_warn fname nm ps s) = unresolvable files name params s"
  by (rule unresolvable_cong) (simp_all add: doxy_warn_def)

lemma calls_unresolvable:
  "unresolvable files name params s \<Longrightarrow>
   list_all (\<lambda>c. c = Lookup name params \<or> is_warn c) cs \<Longrightarrow>
   fst (calls files cs s) = replicate (length (filter (\<lambda>c. \<not> is_warn c) cs)) (Raise KeyError)"
proof (induction cs arbitrary: s)
  case Nil
  then show ?case by simp
next
  case (Cons c cs)
  show ?case
  proof (cases c)
    case (Lookup nm ps)
    with Cons.prems(2) have e: "nm = name" "ps = params" and r: "list_all (\<lambda>c. c = Lookup name params \<or> is_warn c) cs"
      by simp_all
    from unresolvable_step[OF Cons.prems(1)]
    have 1: "fst (doxy_xml files name params s) = Raise KeyError"
      and 2: "unresolvable files name params (snd (doxy_xml files name params s))" by simp_all
    from Cons.IH[OF 2 r] 1 Lookup e show ?thesis by (simp only: calls_Lookup) simp
  next
    case (Warn fname nm ps)
    from Cons.prems(2) have r: "list_all (\<lambda>c. c = Lookup name params \<or> is_warn c) cs" by simp
    from Cons.prems(1) have "unresolvable files name params (doxy_warn fname nm ps s)"
      by (simp only: unresolvable_warn)
    from Cons.IH[OF this r] Warn show ?thesis by simp
  qed
qed

subsection \<open>Warnings\<close>

lemma doxy_warn_effect:
  "WARNINGS (gen (doxy_warn fname name params s))
     = WARNINGS (gen s) + (if (fname, name, params) \<in> set (doxy_warn_cache s) then 0 else 1)"
  "set (doxy_warn_cache (doxy_warn fname name params s))
     = insert (fname, name, params) (set (doxy_warn_cache s))"
  by (auto simp: doxy_warn_def warn_def)

lemma calls_warnings:
  "WARNINGS (gen (snd (calls files cs s)))
     = WARNINGS (gen s) + card (set (warned cs) - set (doxy_warn_cache s))"
proof (induction cs arbitrary: s)
  case Nil
  show ?case by simp
next
  case (Cons c cs)
  show ?case
  proof (cases c)
    case (Lookup nm ps)
    from Cons.IH[of "snd (doxy_xml files nm ps s)"] doxy_xml_frame[of files nm ps s] Lookup
    show ?thesis by (simp only: calls_Lookup warned.simps)
  next
    case (Warn fname nm ps)
    let ?w = "(fname, nm, ps)" and ?C = "set (doxy_warn_cache s)" and ?X = "set (warned cs)"
    let ?s = "doxy_warn fname nm ps s"
    from Cons.IH[of ?s]
    have ih: "WARNINGS (gen (snd (calls files cs ?s)))
              = WARNINGS (gen ?s) + card (?X - insert ?w ?C)"
      by (simp only: doxy_warn_effect)
    show ?thesis
    proof (cases "?w \<in> ?C")
      case True
      then have "insert ?w ?C = ?C" "insert ?w ?X - ?C = ?X - ?C" by auto
      with ih True Warn show ?thesis by (simp add: doxy_warn_effect)
    next
      case False
      have "insert ?w ?X - ?C = insert ?w (?X - insert ?w ?C)" using False by auto
      moreover have "?w \<notin> ?X - insert ?w ?C" by simp
      moreover have "finite (?X - insert ?w ?C)" by simp
      ultimately have "card (insert ?w ?X - ?C) = Suc (card (?X - insert ?w ?C))"
        using card_insert_disjoint[of "?X - insert ?w ?C" ?w] by simp
      with ih False Warn show ?thesis by (simp add: doxy_warn_effect)
    qed
  qed
qed

subsection \<open>Failed lookups and their warnings\<close>

text \<open>
  Claim C7, as the source has it. Take a key that cannot be resolved: its name is not in
  the dictionary, the scope that \<open>doxy_xml\<close> settles on has no class or struct file, and
  the scan of the namespace files completes without entering the name. Then in every
  sequence of lookups of this key and of warnings, each of the lookups raises
  \<open>KeyError\<close>: the failure is not kept in the table of \<open>doxy_xml\<close>, so the lookup fails
  every time it is made, not once. And over every sequence of calls in a fresh process
  the number of warnings that \<open>doxy_warn\<close> emits is the number of distinct triples of
  file name, name and parameters it is called with: one warning for each triple.
\<close>

theorem doxy_xml_raises_every_time:
  assumes "unresolvable files name params s"
    and "list_all (\<lambda>c. c = Lookup name params \<or> is_warn c) cs"
  shows "fst (calls files cs s) = replicate (length (filter (\<lambda>c. \<not> is_warn c) cs)) (Raise KeyError)
         \<and> WARNINGS (gen (snd (calls files cs2 initial_doxy_state))) = length (remdups (warned cs2))"
proof -
  have "WARNINGS (gen (snd (calls files cs2 initial_doxy_state))) = card (set (warned cs2))"
    using calls_warnings[of files cs2 initial_doxy_state]
    by (simp add: initial_doxy_state_def initial_state_def)
  then have "WARNINGS (gen (snd (calls files cs2 initial_doxy_state))) = length (remdups (warned cs2))"
    by (simp only: length_remdups_card_conv)
  with calls_unresolvable[OF assms] show ?thesis by simp
qed

lemma example_unresolvable: "unresolvable example_files ''ns::g'' None initial_doxy_state"
  by code_simp

theorem doxy_xml_raises_every_time_witness:
  "unresolvable example_files ''ns::g'' None initial_doxy_state
   \<and> fst (calls example_files
             [Lookup ''ns::g'' None, Warn ''a.yml'' ''ns::g'' None,
              Lookup ''ns::g'' None, Warn ''a.yml'' ''ns::g'' None] initial_doxy_state)
       = [Raise KeyError, Raise KeyError]
   \<and> WARNINGS (gen (snd (calls example_files
             [Lookup ''ns::g'' None, Warn ''a.yml'' ''ns::g'' None,
              Lookup ''ns::g'' None, Warn ''a.yml'' ''ns::g'' None] initial_doxy_state)))
       = 1"
proof -
  let ?cs = "[Lookup ''ns::g'' None, Warn ''a.yml'' ''ns::g'' None,
              Lookup ''ns::g'' None, Warn ''a.yml'' ''ns::g'' None]"
  have l: "list_all (\<lambda>c. c = Lookup ''ns::g'' None \<or> is_warn c) ?cs" by simp
  from doxy_xml_raises_every_time[OF example_unresolvable l, of ?cs] example_unresolvable
  show ?thesis by simp
qed

text \<open>
  The claim as stated fails: the same key, looked up twice in a fresh process, raises
  twice; and warned about from two files, it gets two warnings.
\<close>

theorem doxy_xml_raises_twice_counterexample:
  "unresolvable example_files ''ns::g'' None initial_doxy_state
   \<and> fst (calls example_files [Lookup ''ns::g'' None, Lookup ''ns::g'' None] initial_doxy_state)
     = [Raise KeyError, Raise KeyError]
   \<and> WARNINGS (gen (snd (calls example_files
        [Lookup ''ns::g'' None, Warn ''a.yml'' ''ns::g'' None,
         Lookup ''ns::g'' None, Warn ''b.yml'' ''ns::g'' None] initial_doxy_state))) = 2"
  by code_simp

subsection \<open>How often a file is parsed\<close>

text \<open>
  Claim C8, as the source has it. Over every sequence of calls in a fresh process, the
  class or struct file of a scope is parsed at most once for that scope: the scopes of
  the parse events of class and struct files are pairwise distinct. Nothing of the kind
  holds for the namespace files.
\<close>

theorem class_file_parsed_once_per_scope:
  "distinct (class_scopes (parsed (snd (calls files cs initial_doxy_state))))"
  by (rule calls_scopes) (simp_all add: initial_doxy_state_def)

theorem class_file_parsed_once_per_scope_witness:
  "parsed (snd (calls example_files
      [Lookup ''A::f'' (Some ''(int) const''), Lookup ''A::v'' None, Lookup ''A::w'' None]
      initial_doxy_state))
     = [ParsedClass ''build/xml/class_a.xml'' ''A'']
   \<and> distinct (class_scopes (parsed (snd (calls example_files
      [Lookup ''A::f'' (Some ''(int) const''), Lookup ''A::v'' None, Lookup ''A::w'' None]
      initial_doxy_state))))"
proof -
  have "parsed (snd (calls example_files
      [Lookup ''A::f'' (Some ''(int) const''), Lookup ''A::v'' None, Lookup ''A::w'' None]
      initial_doxy_state))
     = [ParsedClass ''build/xml/class_a.xml'' ''A'']"
    by code_simp
  with class_file_parsed_once_per_scope[of example_files
      "[Lookup ''A::f'' (Some ''(int) const''), Lookup ''A::v'' None, Lookup ''A::w'' None]"]
  show ?thesis by simp
qed

text \<open>
  The claim as stated fails: two lookups that take the namespace scan parse the same
  namespace file twice.
\<close>

theorem namespace_file_parsed_twice_counterexample:
  "parsed (snd (calls example_files [Lookup ''ns::g'' None, Lookup ''ns::h'' None] initial_doxy_state))
     = [ParsedNamespace ''build/xml/namespacens.xml'', ParsedNamespace ''build/xml/namespacens.xml'']"
  by code_simp

end
